theory Spec2Isabelle
  imports Complex_Main "HOL-Library.Word" "HOL-Library.Signed_Division"
begin

section \<open>Data model of the road graph (RoadGraph.js)\<close>

text \<open>
  JavaScript numbers are modelled by exact numbers: tile coordinates and ids by
  integers, costs and world coordinates by reals; the value Infinity of a typed array
  of costs is the value \<open>None\<close>. A tile object \<open>{tx, ty}\<close> is a pair, a
  typed array filled with -1 is a function into \<open>option\<close> (or into \<open>int\<close> where the
  code compares with -1), the string keys "a|b" of the Set and the Map of pass 2 are
  pairs.
\<close>

type_synonym tile = "int \<times> int"

record node =
  n_id :: nat
  n_tx :: int
  n_ty :: int
  n_x :: real
  n_y :: real

record dirEdge =
  e_id :: nat
  e_from :: nat
  e_to :: nat
  e_tiles :: "tile list"
  e_cost :: real
  e_dirX :: int
  e_dirY :: int
  e_lanes :: int
  e_undirectedId :: nat

record undirEdge =
  u_id :: nat
  u_u :: nat
  u_v :: nat
  u_cost :: real
  u_isBridge :: bool
  u_bridgeScore :: real
  u_dirEdgeIds :: "nat list"

record outEdge =
  a_to :: nat
  a_edge :: nat
  a_cost :: real
  a_dirX :: int
  a_dirY :: int
  a_lanes :: int
  a_undirectedId :: nat

record graph =
  roadTile :: int
  nodes :: "node list"
  dirEdges :: "dirEdge list"
  undirEdges :: "undirEdge list"
  adj :: "outEdge list list"
  nodeId :: "int \<Rightarrow> nat option"
  tileToNode :: "int \<Rightarrow> nat option"
  tileToNodeDist :: "int \<Rightarrow> nat"

text \<open>The map: its read interface (Map.js), the optional per-tile metadata, and the
  slot \<open>map.roadGraph\<close> that caches the graph.\<close>

record tilemap =
  width :: nat
  height :: nat
  tileSize :: "real option"
  tileAt :: "int \<Rightarrow> int \<Rightarrow> int"
  isSolidTile :: "(int \<Rightarrow> bool) option"
  oneWayAt :: "(int \<Rightarrow> int \<Rightarrow> int) option"
  laneCountAt :: "(int \<Rightarrow> int \<Rightarrow> int) option"
  roadGraph :: "graph option"

datatype dir4 = DirE | DirW | DirS | DirN

fun dx :: "dir4 \<Rightarrow> int" where
  "dx DirE = 1"
| "dx DirW = -1"
| "dx DirS = 0"
| "dx DirN = 0"

fun dy :: "dir4 \<Rightarrow> int" where
  "dy DirE = 0"
| "dy DirW = 0"
| "dy DirS = 1"
| "dy DirN = -1"

definition DIRS4 :: "dir4 list" where
  "DIRS4 = [DirE, DirW, DirS, DirN]"

definition idx :: "int \<Rightarrow> int \<Rightarrow> nat \<Rightarrow> int" where
  "idx x y w = y * int w + x"

definition tileSizeOf :: "tilemap \<Rightarrow> real" where
  "tileSizeOf m = (case tileSize m of Some ts \<Rightarrow> ts | None \<Rightarrow> 64)"

text \<open>\<open>Math.floor(wx / ts)\<close>: with \<open>ts = 0\<close> the quotient is infinite or NaN, which is
  no tile (no comparison with it holds); that is the value \<open>None\<close>.\<close>

definition worldToTile :: "tilemap \<Rightarrow> real \<Rightarrow> real \<Rightarrow> tile option" where
  "worldToTile m wx wy =
     (let ts = tileSizeOf m
      in if ts = 0 then None else Some (\<lfloor>wx / ts\<rfloor>, \<lfloor>wy / ts\<rfloor>))"

definition tileToWorldCenter :: "tilemap \<Rightarrow> int \<Rightarrow> int \<Rightarrow> real \<times> real" where
  "tileToWorldCenter m tx ty =
     (let ts = tileSizeOf m
      in ((real_of_int tx + 0.5) * ts, (real_of_int ty + 0.5) * ts))"

definition inBounds :: "tilemap \<Rightarrow> int \<Rightarrow> int \<Rightarrow> bool" where
  "inBounds m x y \<longleftrightarrow> x \<ge> 0 \<and> y \<ge> 0 \<and> x < int (width m) \<and> y < int (height m)"

definition isRoad :: "tilemap \<Rightarrow> int \<Rightarrow> int \<Rightarrow> int \<Rightarrow> bool" where
  "isRoad m rt x y \<longleftrightarrow> inBounds m x y \<and> tileAt m x y = rt"

text \<open>\<open>v | 0\<close>: conversion to a signed 32-bit integer.\<close>

definition toInt32 :: "int \<Rightarrow> int" where
  "toInt32 v = sint (word_of_int v :: 32 word)"

definition oneWayOf :: "tilemap \<Rightarrow> int \<Rightarrow> int \<Rightarrow> int" where
  "oneWayOf m x y = (case oneWayAt m of Some f \<Rightarrow> f x y | None \<Rightarrow> 0)"

definition laneCountOf :: "tilemap \<Rightarrow> int \<Rightarrow> int \<Rightarrow> int" where
  "laneCountOf m x y = (case laneCountAt m of Some f \<Rightarrow> f x y | None \<Rightarrow> 1)"

definition tileAllowsDir :: "tilemap \<Rightarrow> int \<Rightarrow> int \<Rightarrow> int \<Rightarrow> int \<Rightarrow> bool" where
  "tileAllowsDir m tx ty ddx ddy =
     (let ow = toInt32 (oneWayOf m tx ty)
      in if ow = 0 then True
         else if ow = 1 then ddx = 1 \<and> ddy = 0
         else if ow = 2 then ddx = -1 \<and> ddy = 0
         else if ow = 3 then ddx = 0 \<and> ddy = 1
         else if ow = 4 then ddx = 0 \<and> ddy = -1
         else True)"

definition segmentLaneCount :: "tilemap \<Rightarrow> tile list \<Rightarrow> int" where
  "segmentLaneCount m tiles =
     (let mx = fold (\<lambda>t acc. let lc = toInt32 (laneCountOf m (fst t) (snd t))
                              in if lc > acc then lc else acc) tiles 1
      in max 1 (min 4 mx))"

definition isOpposite :: "dir4 \<Rightarrow> dir4 \<Rightarrow> bool" where
  "isOpposite a b \<longleftrightarrow> dx a = - dx b \<and> dy a = - dy b"

subsection \<open>Pass 1: node tiles\<close>

definition openDirs :: "tilemap \<Rightarrow> int \<Rightarrow> int \<Rightarrow> int \<Rightarrow> dir4 list" where
  "openDirs m rt tx ty = filter (\<lambda>d. isRoad m rt (tx + dx d) (ty + dy d)) DIRS4"

definition isNodeTile :: "tilemap \<Rightarrow> int \<Rightarrow> int \<Rightarrow> int \<Rightarrow> bool" where
  "isNodeTile m rt tx ty =
     (let nbs = openDirs m rt tx ty; degree = length nbs
      in if degree \<noteq> 2 then True
         else if \<not> isOpposite (nbs ! 0) (nbs ! 1) then True else False)"

definition pass1_tile ::
  "tilemap \<Rightarrow> int \<Rightarrow> int \<Rightarrow> int \<Rightarrow> (int \<Rightarrow> nat option) \<times> node list
     \<Rightarrow> (int \<Rightarrow> nat option) \<times> node list" where
  "pass1_tile m rt ty tx st =
     (if \<not> isRoad m rt tx ty then st
      else if isNodeTile m rt tx ty then
        (let i = length (snd st); c = tileToWorldCenter m tx ty
         in ((fst st)(idx tx ty (width m) \<mapsto> i),
             snd st @ [\<lparr>n_id = i, n_tx = tx, n_ty = ty, n_x = fst c, n_y = snd c\<rparr>]))
      else st)"

definition pass1 :: "tilemap \<Rightarrow> int \<Rightarrow> (int \<Rightarrow> nat option) \<times> node list" where
  "pass1 m rt =
     fold (\<lambda>ty st. fold (\<lambda>tx. pass1_tile m rt (int ty) (int tx)) [0..<width m] st)
       [0..<height m] (Map.empty, [])"

subsection \<open>Pass 2: directed edges by straight walks\<close>

text \<open>The walk of the \<open>while (isRoad(x, y))\<close> loop from the tile next to node \<open>n0\<close>:
  the node reached and the tiles collected, or \<open>None\<close> when the road ends first.\<close>

function walk ::
  "tilemap \<Rightarrow> int \<Rightarrow> (int \<Rightarrow> nat option) \<Rightarrow> nat \<Rightarrow> dir4 \<Rightarrow> int \<Rightarrow> int \<Rightarrow> tile list
     \<Rightarrow> (nat \<times> tile list) option" where
  "walk m rt nid n0 d x y tiles =
     (if isRoad m rt x y then
        (let tiles' = tiles @ [(x, y)]
         in case nid (idx x y (width m)) of
              Some k \<Rightarrow> if k \<noteq> n0 then Some (k, tiles')
                        else walk m rt nid n0 d (x + dx d) (y + dy d) tiles'
            | None \<Rightarrow> walk m rt nid n0 d (x + dx d) (y + dy d) tiles')
      else None)"
  by pat_completeness auto
termination
  by (relation "measure (\<lambda>(m, rt, nid, n0, d, x, y, tiles).
        (case d of DirE \<Rightarrow> nat (int (width m) - x) | DirW \<Rightarrow> nat (x + 1)
                 | DirS \<Rightarrow> nat (int (height m) - y) | DirN \<Rightarrow> nat (y + 1)))")
     (auto simp: isRoad_def inBounds_def split: dir4.splits)

record build_state =
  bs_dirEdges :: "dirEdge list"
  bs_undirEdges :: "undirEdge list"
  bs_adj :: "outEdge list list"
  bs_dirEdgeSet :: "(nat \<times> nat) set"
  bs_undirMap :: "nat \<times> nat \<Rightarrow> nat option"

definition segmentOk :: "tilemap \<Rightarrow> dir4 \<Rightarrow> tile list \<Rightarrow> bool" where
  "segmentOk m d tiles = list_all (\<lambda>t. tileAllowsDir m (fst t) (snd t) (dx d) (dy d)) (drop 1 tiles)"

definition addEdge :: "tilemap \<Rightarrow> dir4 \<Rightarrow> nat \<Rightarrow> nat \<Rightarrow> tile list \<Rightarrow> build_state \<Rightarrow> build_state" where
  "addEdge m d from to tiles bs =
     (let cost = real (max 1 (length tiles - 1));
          lanes = segmentLaneCount m tiles;
          lo = min from to;
          hi = max from to;
          found = bs_undirMap bs (lo, hi);
          undirectedId = (case found of Some i \<Rightarrow> i | None \<Rightarrow> length (bs_undirEdges bs));
          ues = (case found of Some i \<Rightarrow> bs_undirEdges bs
                 | None \<Rightarrow> bs_undirEdges bs @
                     [\<lparr>u_id = undirectedId, u_u = lo, u_v = hi, u_cost = cost,
                       u_isBridge = False, u_bridgeScore = 0, u_dirEdgeIds = []\<rparr>]);
          umap = (case found of Some i \<Rightarrow> bs_undirMap bs
                  | None \<Rightarrow> (bs_undirMap bs)((lo, hi) \<mapsto> undirectedId));
          eId = length (bs_dirEdges bs);
          ue = ues ! undirectedId;
          ue' = ue\<lparr>u_dirEdgeIds := u_dirEdgeIds ue @ [eId], u_cost := min (u_cost ue) cost\<rparr>
      in \<lparr>bs_dirEdges = bs_dirEdges bs @
             [\<lparr>e_id = eId, e_from = from, e_to = to, e_tiles = tiles, e_cost = cost,
               e_dirX = dx d, e_dirY = dy d, e_lanes = lanes, e_undirectedId = undirectedId\<rparr>],
          bs_undirEdges = ues[undirectedId := ue'],
          bs_adj = (bs_adj bs)[from := (bs_adj bs ! from) @
             [\<lparr>a_to = to, a_edge = eId, a_cost = cost, a_dirX = dx d, a_dirY = dy d,
               a_lanes = lanes, a_undirectedId = undirectedId\<rparr>]],
          bs_dirEdgeSet = insert (from, to) (bs_dirEdgeSet bs),
          bs_undirMap = umap\<rparr>)"

definition pass2_dir ::
  "tilemap \<Rightarrow> int \<Rightarrow> (int \<Rightarrow> nat option) \<Rightarrow> node \<Rightarrow> dir4 \<Rightarrow> build_state \<Rightarrow> build_state" where
  "pass2_dir m rt nid n d bs =
     (let sx = n_tx n + dx d; sy = n_ty n + dy d
      in if \<not> isRoad m rt sx sy then bs
         else case walk m rt nid (n_id n) d sx sy [(n_tx n, n_ty n)] of
                None \<Rightarrow> bs
              | Some (to, tiles) \<Rightarrow>
                  if segmentOk m d tiles then
                    (if (n_id n, to) \<notin> bs_dirEdgeSet bs then addEdge m d (n_id n) to tiles bs
                     else bs)
                  else bs)"

definition pass2 ::
  "tilemap \<Rightarrow> int \<Rightarrow> (int \<Rightarrow> nat option) \<Rightarrow> node list \<Rightarrow> build_state" where
  "pass2 m rt nid ns =
     fold (\<lambda>n bs. fold (pass2_dir m rt nid n) DIRS4 bs) ns
       \<lparr>bs_dirEdges = [], bs_undirEdges = [], bs_adj = replicate (length ns) [],
        bs_dirEdgeSet = {}, bs_undirMap = Map.empty\<rparr>"

subsection \<open>Pass 2b: bridges of the undirected graph (computeBridges)\<close>

text \<open>The arrays \<open>disc\<close>, \<open>low\<close> and \<open>parent\<close> have length \<open>N\<close> and are filled with
  -1; \<open>disc[v] === -1\<close> holds of no index outside the array, hence the test \<open>v < N\<close>.\<close>

record tarjan =
  disc :: "nat \<Rightarrow> int"
  low :: "nat \<Rightarrow> int"
  parent :: "nat \<Rightarrow> int"
  time :: nat
  t_edges :: "undirEdge list"

definition enter :: "tarjan \<Rightarrow> nat \<Rightarrow> tarjan" where
  "enter st u =
     st\<lparr>disc := (disc st)(u := int (time st)), low := (low st)(u := int (time st)),
        time := time st + 1\<rparr>"

definition markBridge :: "tarjan \<Rightarrow> nat \<Rightarrow> tarjan" where
  "markBridge st eId =
     (if eId < length (t_edges st)
      then st\<lparr>t_edges := (t_edges st)[eId := (t_edges st ! eId)\<lparr>u_isBridge := True\<rparr>]\<rparr>
      else st)"

definition afterChild :: "tarjan \<Rightarrow> nat \<Rightarrow> nat \<Rightarrow> nat \<Rightarrow> tarjan" where
  "afterChild st u v eId =
     (let st1 = st\<lparr>low := (low st)(u := min (low st u) (low st v))\<rparr>
      in if low st1 v > disc st1 u then markBridge st1 eId else st1)"

definition backEdge :: "tarjan \<Rightarrow> nat \<Rightarrow> nat \<Rightarrow> tarjan" where
  "backEdge st u v = st\<lparr>low := (low st)(u := min (low st u) (disc st v))\<rparr>"

definition setParent :: "tarjan \<Rightarrow> nat \<Rightarrow> nat \<Rightarrow> tarjan" where
  "setParent st v u = st\<lparr>parent := (parent st)(v := int u)\<rparr>"

definition undisc :: "nat \<Rightarrow> tarjan \<Rightarrow> nat set" where
  "undisc N st = {v. v < N \<and> disc st v = -1}"

text \<open>The body of \<open>dfs(u)\<close> after its first line: the loop over the neighbours of
  \<open>u\<close> that are left, with the recursive call \<open>dfs(v)\<close> inlined.\<close>

function dfs_loop ::
  "nat \<Rightarrow> (nat \<Rightarrow> (nat \<times> nat) list) \<Rightarrow> tarjan \<Rightarrow> nat \<Rightarrow> (nat \<times> nat) list \<Rightarrow> tarjan" where
  "dfs_loop N nb st u [] = st"
| "dfs_loop N nb st u ((v, eId) # rest) =
     (if v < N \<and> disc st v = -1 then
        dfs_loop N nb
          (afterChild (dfs_loop N nb (enter (setParent st v u) v) v (nb v)) u v eId) u rest
      else if int v \<noteq> parent st u then dfs_loop N nb (backEdge st u v) u rest
      else dfs_loop N nb st u rest)"
  by pat_completeness auto

lemma undisc_finite: "finite (undisc N st)"
  by (simp add: undisc_def)

lemma undisc_afterChild: "undisc N (afterChild st u v eId) = undisc N st"
  by (simp add: undisc_def afterChild_def markBridge_def Let_def)

lemma undisc_backEdge: "undisc N (backEdge st u v) = undisc N st"
  by (simp add: undisc_def backEdge_def)

lemma undisc_enter: "undisc N (enter (setParent st v u) v) = undisc N st - {v}"
  by (auto simp: undisc_def enter_def setParent_def)

lemma dfs_loop_undisc_dom:
  "dfs_loop_dom (N, nb, st, u, ns) \<Longrightarrow> undisc N (dfs_loop N nb st u ns) \<subseteq> undisc N st"
proof (induction N nb st u ns rule: dfs_loop.pinduct)
  case (1 N nb st u)
  then show ?case by (simp add: dfs_loop.psimps)
next
  case (2 N nb st u v eId rest)
  show ?case
  proof (cases "v < N \<and> disc st v = -1")
    case True
    have a: "undisc N (dfs_loop N nb (enter (setParent st v u) v) v (nb v)) \<subseteq> undisc N st"
      using 2(2)[OF True] by (auto simp: undisc_enter)
    have "undisc N (dfs_loop N nb st u ((v, eId) # rest)) \<subseteq>
          undisc N (afterChild (dfs_loop N nb (enter (setParent st v u) v) v (nb v)) u v eId)"
      using 2(3)[OF True] True by (simp add: dfs_loop.psimps(2)[OF 2(1)])
    then show ?thesis using a by (simp add: undisc_afterChild)
  next
    case False
    then show ?thesis
      using 2(4,5) by (auto simp: dfs_loop.psimps(2)[OF 2(1)] undisc_backEdge)
  qed
qed

termination dfs_loop
proof (relation "(\<lambda>(N, nb, st, u, ns). card (undisc N st)) <*mlex*>
                 measure (\<lambda>(N, nb, st, u, ns). length ns)", goal_cases)
  case 1
  show ?case by (simp add: wf_mlex)
next
  case (2 N nb st u v eId rest)
  then have "v \<in> undisc N st" by (simp add: undisc_def)
  then have "card (undisc N st - {v}) < card (undisc N st)"
    by (intro card_Diff1_less undisc_finite)
  then show ?case by (simp add: mlex_less undisc_enter del: card_Diff_insert)
next
  case (3 N nb st u v eId rest)
  have "undisc N (dfs_loop N nb (enter (setParent st v u) v) v (nb v)) \<subseteq> undisc N st - {v}"
    using dfs_loop_undisc_dom[OF 3(2)] by (simp add: undisc_enter)
  then have "card (undisc N (dfs_loop N nb (enter (setParent st v u) v) v (nb v)))
             \<le> card (undisc N st)"
    by (meson Diff_subset card_mono order_trans undisc_finite)
  then show ?case by (auto simp: undisc_afterChild intro!: mlex_leq)
next
  case 4
  then show ?case by (auto simp: undisc_backEdge intro!: mlex_leq)
next
  case 5
  then show ?case by (auto intro!: mlex_leq)
qed

definition dfs :: "nat \<Rightarrow> (nat \<Rightarrow> (nat \<times> nat) list) \<Rightarrow> tarjan \<Rightarrow> nat \<Rightarrow> tarjan" where
  "dfs N nb st u = dfs_loop N nb (enter st u) u (nb u)"

definition computeBridges ::
  "nat \<Rightarrow> undirEdge list \<Rightarrow> (nat \<Rightarrow> (nat \<times> nat) list) \<Rightarrow> undirEdge list" where
  "computeBridges N ues nb =
     t_edges (fold (\<lambda>i st. if disc st i = -1 then dfs N nb st i else st) [0..<N]
       \<lparr>disc = (\<lambda>_. -1), low = (\<lambda>_. -1), parent = (\<lambda>_. -1), time = 0, t_edges = ues\<rparr>)"

definition buildUndAdj :: "nat \<Rightarrow> undirEdge list \<Rightarrow> (nat \<times> nat) list list" where
  "buildUndAdj N ues =
     fold (\<lambda>e a. let a1 = a[u_u e := a ! u_u e @ [(u_v e, u_id e)]]
                 in a1[u_v e := a1 ! u_v e @ [(u_u e, u_id e)]])
       ues (replicate N [])"

definition BRIDGE_SAFE_N :: nat where
  "BRIDGE_SAFE_N = 1600"

definition setBridgeScore :: "undirEdge \<Rightarrow> undirEdge" where
  "setBridgeScore e = e\<lparr>u_bridgeScore := (if u_isBridge e then u_cost e * 1.0 else 0)\<rparr>"

subsection \<open>Pass 3: nearest node of every road tile (multi-source BFS)\<close>

record bfs_state =
  bq :: "(int \<times> int \<times> nat) list"
  btn :: "int \<Rightarrow> nat option"
  btd :: "int \<Rightarrow> nat"

definition bfs_seed :: "tilemap \<Rightarrow> node \<Rightarrow> bfs_state \<Rightarrow> bfs_state" where
  "bfs_seed m n st =
     (let k = idx (n_tx n) (n_ty n) (width m)
      in \<lparr>bq = bq st @ [(n_tx n, n_ty n, n_id n)], btn = (btn st)(k \<mapsto> n_id n),
          btd = (btd st)(k := 0)\<rparr>)"

text \<open>A store into the Uint16Array keeps the value modulo 65536.\<close>

definition bfs_dir ::
  "tilemap \<Rightarrow> int \<Rightarrow> int \<times> int \<times> nat \<Rightarrow> nat \<Rightarrow> dir4 \<Rightarrow> bfs_state \<Rightarrow> bfs_state" where
  "bfs_dir m rt cur cd d st =
     (let nx = fst cur + dx d; ny = fst (snd cur) + dy d
      in if \<not> isRoad m rt nx ny then st
         else let k = idx nx ny (width m)
              in if btd st k \<le> cd + 1 then st
                 else \<lparr>bq = bq st @ [(nx, ny, snd (snd cur))],
                       btn = (btn st)(k \<mapsto> snd (snd cur)),
                       btd = (btd st)(k := (cd + 1) mod 65536)\<rparr>)"

definition distSum :: "tilemap \<Rightarrow> bfs_state \<Rightarrow> nat" where
  "distSum m st = (\<Sum>k \<in> {0..<int (width m * height m)}. btd st k)"

lemma idx_inBounds:
  assumes "inBounds m x y"
  shows "idx x y (width m) \<in> {0..<int (width m * height m)}"
proof -
  from assms have x: "0 \<le> x" "x < int (width m)" and y: "0 \<le> y" "y + 1 \<le> int (height m)"
    by (auto simp: inBounds_def)
  have "y * int (width m) + x < (y + 1) * int (width m)" using x by (simp add: algebra_simps)
  also have "\<dots> \<le> int (height m) * int (width m)"
    using y by (intro mult_right_mono) auto
  finally have "idx x y (width m) < int (width m * height m)"
    by (simp add: idx_def mult.commute)
  moreover have "0 \<le> idx x y (width m)" using x y by (simp add: idx_def)
  ultimately show ?thesis by simp
qed

lemma sum_upd_less:
  fixes f :: "int \<Rightarrow> nat"
  assumes "finite K" "k \<in> K" "v < f k"
  shows "sum (f(k := v)) K < sum f K"
proof -
  have "sum (f(k := v)) K = v + sum (f(k := v)) (K - {k})"
    using assms by (simp add: sum.remove)
  also have "sum (f(k := v)) (K - {k}) = sum f (K - {k})"
    by (rule sum.cong) auto
  also have "v + sum f (K - {k}) < f k + sum f (K - {k})" using assms by simp
  also have "\<dots> = sum f K" using assms by (simp add: sum.remove)
  finally show ?thesis .
qed

lemma bfs_dir_measure:
  "length (bq (bfs_dir m rt cur cd d st)) + distSum m (bfs_dir m rt cur cd d st)
     \<le> length (bq st) + distSum m st"
proof (cases "isRoad m rt (fst cur + dx d) (fst (snd cur) + dy d)
              \<and> \<not> btd st (idx (fst cur + dx d) (fst (snd cur) + dy d) (width m)) \<le> cd + 1")
  case True
  let ?k = "idx (fst cur + dx d) (fst (snd cur) + dy d) (width m)"
  have k: "?k \<in> {0..<int (width m * height m)}"
    using True by (intro idx_inBounds) (simp add: isRoad_def)
  have "(cd + 1) mod 65536 < btd st ?k" using True
    by (meson mod_less_eq_dividend not_le order_le_less_trans)
  then have "sum ((btd st)(?k := (cd + 1) mod 65536)) {0..<int (width m * height m)}
             < sum (btd st) {0..<int (width m * height m)}"
    using k by (intro sum_upd_less) auto
  then show ?thesis using True by (simp add: bfs_dir_def distSum_def Let_def)
next
  case False
  then show ?thesis by (auto simp: bfs_dir_def Let_def)
qed

lemma bfs_dirs_measure:
  "length (bq (fold (bfs_dir m rt cur cd) ds st)) + distSum m (fold (bfs_dir m rt cur cd) ds st)
     \<le> length (bq st) + distSum m st"
proof (induction ds arbitrary: st)
  case Nil
  show ?case by simp
next
  case (Cons d ds)
  show ?case using Cons[of "bfs_dir m rt cur cd d st"] bfs_dir_measure[of m rt cur cd d st]
    by simp
qed

function bfs :: "tilemap \<Rightarrow> int \<Rightarrow> nat \<Rightarrow> bfs_state \<Rightarrow> bfs_state" where
  "bfs m rt qh st =
     (if qh < length (bq st) then
        (let cur = bq st ! qh;
             cd = btd st (idx (fst cur) (fst (snd cur)) (width m))
         in bfs m rt (Suc qh) (fold (bfs_dir m rt cur cd) DIRS4 st))
      else st)"
  by pat_completeness auto
termination
proof (relation "measure (\<lambda>(m, rt, qh, st). length (bq st) + distSum m st - qh)", goal_cases)
  case 1
  show ?case by simp
next
  case (2 m rt qh st cur cd)
  have "length (bq (fold (bfs_dir m rt cur cd) DIRS4 st))
          + distSum m (fold (bfs_dir m rt cur cd) DIRS4 st) \<le> length (bq st) + distSum m st"
    by (rule bfs_dirs_measure)
  then show ?case using 2(1) by simp
qed

definition pass3 :: "tilemap \<Rightarrow> int \<Rightarrow> node list \<Rightarrow> bfs_state" where
  "pass3 m rt ns =
     bfs m rt 0 (fold (bfs_seed m) ns \<lparr>bq = [], btn = Map.empty, btd = (\<lambda>_. 65535)\<rparr>)"

subsection \<open>buildRoadGraph\<close>

definition bridgePass :: "nat \<Rightarrow> undirEdge list \<Rightarrow> undirEdge list" where
  "bridgePass N ues =
     (if N \<le> BRIDGE_SAFE_N then
        (let undAdj = buildUndAdj N ues in computeBridges N ues (\<lambda>u. undAdj ! u))
      else ues)"

definition buildRoadGraph :: "tilemap \<Rightarrow> int option \<Rightarrow> graph" where
  "buildRoadGraph m optRoadTile =
     (let rt = (case optRoadTile of Some r \<Rightarrow> r | None \<Rightarrow> 2);
          p1 = pass1 m rt;
          bs = pass2 m rt (fst p1) (snd p1);
          ues = bridgePass (length (snd p1)) (bs_undirEdges bs);
          b = pass3 m rt (snd p1)
      in \<lparr>roadTile = rt, nodes = snd p1, dirEdges = bs_dirEdges bs,
          undirEdges = map setBridgeScore ues, adj = bs_adj bs, nodeId = fst p1,
          tileToNode = btn b, tileToNodeDist = btd b\<rparr>)"

section \<open>Navigation on the road graph (RoadGraphNav.js)\<close>

text \<open>\<open>ensureRoadGraph\<close> fills the cache \<open>map.roadGraph\<close> on first use; the map is
  passed on, updated, to the calls that follow.\<close>

definition ensureRoadGraph :: "tilemap \<Rightarrow> graph \<times> tilemap" where
  "ensureRoadGraph m =
     (case roadGraph m of
        Some g \<Rightarrow> (g, m)
      | None \<Rightarrow> (let g = buildRoadGraph m (Some 2) in (g, m\<lparr>roadGraph := Some g\<rparr>)))"

definition ring :: "int \<Rightarrow> (int \<times> int) list" where
  "ring r = [(ddx, ddy). ddy \<leftarrow> [-r..r], ddx \<leftarrow> [-r..r], \<bar>ddx\<bar> = r \<or> \<bar>ddy\<bar> = r]"

definition snapWorldToRoadTile :: "tilemap \<Rightarrow> real \<Rightarrow> real \<Rightarrow> int \<Rightarrow> int \<Rightarrow> tile option" where
  "snapWorldToRoadTile m wx wy rt maxRadiusTiles =
     (case worldToTile m wx wy of
        None \<Rightarrow> None
      | Some (tx, ty) \<Rightarrow>
          if inBounds m tx ty \<and> tileAt m tx ty = rt then Some (tx, ty)
          else List.find (\<lambda>(x, y). inBounds m x y \<and> tileAt m x y = rt)
                 (map (\<lambda>(ddx, ddy). (tx + ddx, ty + ddy))
                    (concat (map ring [1..maxRadiusTiles]))))"

definition snapWorldToNearestRoadNode ::
  "tilemap \<Rightarrow> real \<Rightarrow> real \<Rightarrow> int \<Rightarrow> nat option \<times> tilemap" where
  "snapWorldToNearestRoadNode m wx wy maxRadiusTiles =
     (let (g, m') = ensureRoadGraph m
      in (case snapWorldToRoadTile m' wx wy (roadTile g) maxRadiusTiles of
            None \<Rightarrow> None
          | Some (tx, ty) \<Rightarrow> tileToNode g (idx tx ty (width m')), m'))"

subsection \<open>MinHeap\<close>

text \<open>The heap is its array \<open>_a\<close>; \<open>cmp\<close> is the comparator given to the constructor.\<close>

function heap_up :: "('a \<Rightarrow> 'a \<Rightarrow> real) \<Rightarrow> 'a list \<Rightarrow> nat \<Rightarrow> 'a list" where
  "heap_up cmp a i =
     (if i > 0 then
        (let p = (i - 1) div 2
         in if cmp (a ! i) (a ! p) \<ge> 0 then a
            else heap_up cmp (a[i := a ! p, p := a ! i]) p)
      else a)"
  by pat_completeness auto
termination
  by (relation "measure (\<lambda>(cmp, a, i). i)") auto

function heap_down :: "('a \<Rightarrow> 'a \<Rightarrow> real) \<Rightarrow> 'a list \<Rightarrow> nat \<Rightarrow> 'a list" where
  "heap_down cmp a i =
     (let n = length a;
          l = i * 2 + 1;
          r = l + 1;
          m1 = (if l < n \<and> cmp (a ! l) (a ! i) < 0 then l else i);
          m2 = (if r < n \<and> cmp (a ! r) (a ! m1) < 0 then r else m1)
      in if m2 = i then a else heap_down cmp (a[i := a ! m2, m2 := a ! i]) m2)"
  by pat_completeness auto
termination
  by (relation "measure (\<lambda>(cmp, a, i). length a - i)") (auto split: if_splits)

definition heap_push :: "('a \<Rightarrow> 'a \<Rightarrow> real) \<Rightarrow> 'a list \<Rightarrow> 'a \<Rightarrow> 'a list" where
  "heap_push cmp a v = heap_up cmp (a @ [v]) (length a)"

text \<open>\<open>pop\<close> is only called on a heap that is not empty (the loops test \<open>isEmpty\<close>
  first); on the empty heap the model has no result.\<close>

definition heap_pop :: "('a \<Rightarrow> 'a \<Rightarrow> real) \<Rightarrow> 'a list \<Rightarrow> ('a \<times> 'a list) option" where
  "heap_pop cmp a =
     (if a = [] then None
      else if length a = 1 then Some (last a, butlast a)
      else Some (a ! 0, heap_down cmp ((butlast a)[0 := last a]) 0))"

subsection \<open>A* on the node graph\<close>

text \<open>The arrays \<open>gScore\<close> and \<open>fScore\<close> are Float32Arrays in the code and the heap
  keys are doubles; the scores are exact reals here. The costs of the edges of a built
  graph are numbers of tiles, whose sums the arrays hold exactly.\<close>

record astar =
  gScore :: "nat \<Rightarrow> real option"
  fScore :: "nat \<Rightarrow> real option"
  cameFrom :: "nat \<Rightarrow> nat option"
  inOpen :: "nat \<Rightarrow> bool"
  closedArr :: "nat \<Rightarrow> bool"
  heap :: "(nat \<times> real) list"

definition cmpF :: "nat \<times> real \<Rightarrow> nat \<times> real \<Rightarrow> real" where
  "cmpF a b = snd a - snd b"

definition hDist :: "graph \<Rightarrow> nat \<Rightarrow> nat \<Rightarrow> real" where
  "hDist g a b =
     (let na = nodes g ! a; nb = nodes g ! b;
          ddx = n_tx nb - n_tx na; ddy = n_ty nb - n_ty na
      in sqrt (real_of_int (ddx * ddx + ddy * ddy)))"

definition adjOf :: "graph \<Rightarrow> int \<Rightarrow> outEdge list" where
  "adjOf g a = (if 0 \<le> a \<and> a < int (length (adj g)) then adj g ! nat a else [])"

text \<open>One neighbour of the \<open>for (const e of neigh)\<close> loop. The arrays have length \<open>N\<close>:
  a read outside is undefined, and the comparison \<open>tentativeG < gScore[nb]\<close> with it
  fails, as it does when \<open>tentativeG\<close> is Infinity.\<close>

definition relax :: "graph \<Rightarrow> nat \<Rightarrow> nat \<Rightarrow> nat \<Rightarrow> outEdge \<Rightarrow> astar \<Rightarrow> astar" where
  "relax g N goalId curId e st =
     (let nb = a_to e
      in if closedArr st nb then st
         else case gScore st curId of
                None \<Rightarrow> st
              | Some gc \<Rightarrow>
                  (let tentativeG = gc + a_cost e
                   in if nb < N \<and> (case gScore st nb of None \<Rightarrow> True | Some gn \<Rightarrow> tentativeG < gn)
                      then (let nf = tentativeG + hDist g nb goalId
                            in st\<lparr>cameFrom := (cameFrom st)(nb \<mapsto> curId),
                                  gScore := (gScore st)(nb \<mapsto> tentativeG),
                                  fScore := (fScore st)(nb \<mapsto> nf),
                                  heap := heap_push cmpF (heap st) (nb, nf),
                                  inOpen := (inOpen st)(nb := True)\<rparr>)
                      else st))"

partial_function (option) reconstruct ::
  "(nat \<Rightarrow> nat option) \<Rightarrow> nat \<Rightarrow> nat option \<Rightarrow> nat list \<Rightarrow> nat list option" where
  "reconstruct cf startId p out =
     (case p of
        None \<Rightarrow> Some out
      | Some q \<Rightarrow> if q = startId then Some (out @ [q])
                  else reconstruct cf startId (cf q) (out @ [q]))"

text \<open>The main loop, on the iterations that are left of \<open>maxIters\<close>. The result
  \<open>None\<close> is a reconstruction that does not end, \<open>Some None\<close> the value null.\<close>

fun astar_loop ::
  "graph \<Rightarrow> nat \<Rightarrow> nat \<Rightarrow> nat \<Rightarrow> nat \<Rightarrow> astar \<Rightarrow> nat list option option" where
  "astar_loop g N startId goalId 0 st = Some None"
| "astar_loop g N startId goalId (Suc k) st =
     (case heap_pop cmpF (heap st) of
        None \<Rightarrow> Some None
      | Some (cur, hp) \<Rightarrow>
          (let st1 = st\<lparr>heap := hp\<rparr>; curId = fst cur
           in if closedArr st1 curId then astar_loop g N startId goalId k st1
              else if curId = goalId then
                map_option (\<lambda>out. Some (rev out))
                  (reconstruct (cameFrom st1) startId (cameFrom st1 curId) [curId])
              else astar_loop g N startId goalId k
                     (fold (relax g N goalId curId) (adjOf g (int curId))
                        (st1\<lparr>inOpen := (inOpen st1)(curId := False),
                             closedArr := (closedArr st1)(curId := True)\<rparr>))))"

definition astar_init :: "graph \<Rightarrow> nat \<Rightarrow> nat \<Rightarrow> astar" where
  "astar_init g startId goalId =
     \<lparr>gScore = (\<lambda>_. None)(startId \<mapsto> 0),
      fScore = (\<lambda>_. None)(startId \<mapsto> hDist g startId goalId),
      cameFrom = (\<lambda>_. None),
      inOpen = (\<lambda>_. False)(startId := True),
      closedArr = (\<lambda>_. False),
      heap = heap_push cmpF [] (startId, hDist g startId goalId)\<rparr>"

definition findNodePathAStar ::
  "graph option \<Rightarrow> int option \<Rightarrow> int option \<Rightarrow> nat \<Rightarrow> int list option option" where
  "findNodePathAStar graph startId goalId maxIters =
     (case (graph, startId, goalId) of
        (Some g, Some s, Some t) \<Rightarrow>
          if s = t then Some (Some [s])
          else (let N = length (nodes g)
                in if s < 0 \<or> s \<ge> int N \<or> t < 0 \<or> t \<ge> int N then Some None
                   else map_option (map_option (map int))
                          (astar_loop g N (nat s) (nat t) maxIters (astar_init g (nat s) (nat t))))
      | _ \<Rightarrow> Some None)"

subsection \<open>Waypoints of a node path\<close>

record wp_opts =
  opt_laneWidth :: "real option"
  opt_laneBias :: "int option"

definition findAdj :: "graph \<Rightarrow> int \<Rightarrow> int \<Rightarrow> outEdge option" where
  "findAdj g a b = List.find (\<lambda>x. int (a_to x) = b) (adjOf g a)"

definition clampLanes :: "int \<Rightarrow> int" where
  "clampLanes l = max 1 (min 4 l)"

definition laneOffset :: "int \<Rightarrow> int \<Rightarrow> real \<Rightarrow> real" where
  "laneOffset laneBias lanes laneWidth =
     (let laneIndex = ((laneBias smod lanes) + lanes) smod lanes;
          centered = real_of_int laneIndex - (real_of_int lanes - 1) / 2
      in centered * laneWidth)"

definition wpAt :: "tilemap \<Rightarrow> int \<Rightarrow> int \<Rightarrow> real \<Rightarrow> tile \<Rightarrow> real \<times> real" where
  "wpAt m dirX dirY off p =
     (let c = tileToWorldCenter m (fst p) (snd p);
          perpX = - dirY; perpY = dirX
      in (fst c + real_of_int perpX * off, snd c + real_of_int perpY * off))"

definition edgeStep ::
  "tilemap \<Rightarrow> graph \<Rightarrow> int list \<Rightarrow> bool \<Rightarrow> real \<Rightarrow> int \<Rightarrow> nat \<Rightarrow> (real \<times> real) list
     \<Rightarrow> (real \<times> real) list" where
  "edgeStep m g nodePath dropFirst lw lb i out =
     (case findAdj g (nodePath ! i) (nodePath ! (i + 1)) of
        None \<Rightarrow> out
      | Some ad \<Rightarrow>
          if a_edge ad \<ge> length (dirEdges g) then out
          else (let edge = dirEdges g ! a_edge ad;
                    tiles = e_tiles edge;
                    lanes = clampLanes (e_lanes edge);
                    off = laneOffset lb lanes lw
                in fold (\<lambda>t acc.
                      if dropFirst \<and> i = 0 \<and> t = 0 then acc
                      else if i > 0 \<and> t = 0 then acc
                      else if \<not> (t = length tiles - 1) \<and> t > 0 \<and> t mod 2 = 1 then acc
                      else acc @ [wpAt m (e_dirX edge) (e_dirY edge) off (tiles ! t)])
                    [0..<length tiles] out))"

definition laneWidthOf :: "tilemap \<Rightarrow> wp_opts \<Rightarrow> real" where
  "laneWidthOf m opts =
     (case opt_laneWidth opts of Some v \<Rightarrow> v | None \<Rightarrow> max 4 (tileSizeOf m * 0.18))"

definition laneBiasOf :: "wp_opts \<Rightarrow> int" where
  "laneBiasOf opts = (case opt_laneBias opts of Some b \<Rightarrow> toInt32 b | None \<Rightarrow> 0)"

definition nodePathToWaypoints ::
  "tilemap \<Rightarrow> graph \<Rightarrow> int list \<Rightarrow> bool \<Rightarrow> wp_opts \<Rightarrow> (real \<times> real) list option" where
  "nodePathToWaypoints m g nodePath dropFirst opts =
     (if length nodePath < 2 then None
      else (let out = fold (edgeStep m g nodePath dropFirst (laneWidthOf m opts) (laneBiasOf opts))
                        [0..<length nodePath - 1] []
            in if out = [] then None else Some out))"

definition findGraphWaypoints ::
  "tilemap \<Rightarrow> real \<Rightarrow> real \<Rightarrow> real \<Rightarrow> real \<Rightarrow> wp_opts \<Rightarrow> (real \<times> real) list option option" where
  "findGraphWaypoints m startX startY goalX goalY opts =
     (let (g, m1) = ensureRoadGraph m;
          (startNode, m2) = snapWorldToNearestRoadNode m1 startX startY 14;
          (goalNode, m3) = snapWorldToNearestRoadNode m2 goalX goalY 14
      in case (startNode, goalNode) of
           (Some s, Some t) \<Rightarrow>
             if s = t then Some None
             else (case findNodePathAStar (Some g) (Some (int s)) (Some (int t)) 8000 of
                     None \<Rightarrow> None
                   | Some None \<Rightarrow> Some None
                   | Some (Some nodePath) \<Rightarrow> Some (nodePathToWaypoints m3 g nodePath True opts))
         | _ \<Rightarrow> Some None)"

subsection \<open>Cost table (dijkstraCosts) and interception\<close>



definition cmpD :: "nat \<times> real \<Rightarrow> nat \<times> real \<Rightarrow> real" where
  "cmpD a b = snd a - snd b"

definition relaxD ::
  "nat \<Rightarrow> nat \<Rightarrow> outEdge \<Rightarrow> (nat \<Rightarrow> real option) \<times> (nat \<times> real) list
     \<Rightarrow> (nat \<Rightarrow> real option) \<times> (nat \<times> real) list" where
  "relaxD N u e st =
     (let v = a_to e
      in case fst st u of
           None \<Rightarrow> st
         | Some du \<Rightarrow>
             (let nd = du + a_cost e
              in if v < N \<and> (case fst st v of None \<Rightarrow> True | Some dv \<Rightarrow> nd < dv)
                 then ((fst st)(v \<mapsto> nd), heap_push cmpD (snd st) (v, nd))
                 else st))"

fun dijkstra_loop ::
  "graph \<Rightarrow> nat \<Rightarrow> nat \<Rightarrow> (nat \<Rightarrow> real option) \<times> (nat \<times> real) list \<Rightarrow> nat \<Rightarrow> real option" where
  "dijkstra_loop g N 0 st = fst st"
| "dijkstra_loop g N (Suc k) st =
     (case heap_pop cmpD (snd st) of
        None \<Rightarrow> fst st
      | Some (cur, hp) \<Rightarrow>
          if Some (snd cur) \<noteq> fst st (fst cur) then dijkstra_loop g N k (fst st, hp)
          else dijkstra_loop g N k
                 (fold (relaxD N (fst cur)) (adjOf g (int (fst cur))) (fst st, hp)))"

definition dijkstraCosts :: "graph \<Rightarrow> nat \<Rightarrow> nat \<Rightarrow> nat \<Rightarrow> real option" where
  "dijkstraCosts g startId maxIters =
     (let N = length (nodes g)
      in dijkstra_loop g N maxIters
           ((if startId < N then (\<lambda>_. None)(startId \<mapsto> 0) else (\<lambda>_. None)),
            heap_push cmpD [] (startId, 0)))"






section \<open>Grid pathfinding (PoliceNav.js)\<close>

datatype agent_mode = Car | Ped


text \<open>A node object of the open Map; \<open>parent\<close> is a reference to the node it was
  reached from.\<close>

datatype gnode = GNode (gn_tx: int) (gn_ty: int) (gn_g: real) (gn_f: real) (gn_parent: "gnode option")


text \<open>The open Map keeps insertion order; a \<open>set\<close> on a key it has replaces the value
  in place.\<close>

definition pickBest :: "(int \<times> gnode) list \<Rightarrow> (int \<times> gnode) option" where
  "pickBest opn =
     fold (\<lambda>kn best. case best of None \<Rightarrow> Some kn
                      | Some b \<Rightarrow> if gn_f (snd kn) < gn_f (snd b) then Some kn else best)
       opn None"



fun chain :: "gnode \<Rightarrow> tile list" where
  "chain (GNode tx ty g f p) = (tx, ty) # (case p of None \<Rightarrow> [] | Some q \<Rightarrow> chain q)"




section \<open>Traffic follower (CopCar.js): waypoints of one edge\<close>

definition buildEdgeWaypoints ::
  "tilemap \<Rightarrow> graph \<Rightarrow> nat \<Rightarrow> int \<Rightarrow> (real \<times> real) list option" where
  "buildEdgeWaypoints m g edgeId lb =
     (if edgeId \<ge> length (dirEdges g) then None
      else (let edge = dirEdges g ! edgeId; tiles = e_tiles edge
            in if tiles = [] then None
               else (let lw = max 4 (tileSizeOf m * 0.18);
                         lanes = clampLanes (e_lanes edge);
                         off = laneOffset lb lanes lw;
                         out = fold (\<lambda>i acc.
                                 if \<not> (i = length tiles - 1) \<and> i > 0 \<and> i mod 2 = 1 then acc
                                 else acc @ [wpAt m (e_dirX edge) (e_dirY edge) off (tiles ! i)])
                               [0..<length tiles] []
                     in if out = [] then None else Some out)))"

section \<open>Example maps\<close>

text \<open>A map of one road tile: its graph has the single node 0 and no edge.\<close>

definition dot1 :: tilemap where
  "dot1 = \<lparr>width = 1, height = 1, tileSize = None, tileAt = (\<lambda>x y. 2), isSolidTile = None,
     oneWayAt = None, laneCountAt = None, roadGraph = None\<rparr>"

section \<open>Notions used in the statements\<close>

definition tileList :: "tilemap \<Rightarrow> (nat \<times> nat) list" where
  "tileList m = List.product [0..<height m] [0..<width m]"

definition nodeTileP :: "tilemap \<Rightarrow> int \<Rightarrow> nat \<times> nat \<Rightarrow> bool" where
  "nodeTileP m rt t \<longleftrightarrow> isRoad m rt (int (snd t)) (int (fst t)) \<and> isNodeTile m rt (int (snd t)) (int (fst t))"

definition tileOf :: "node \<Rightarrow> tile" where
  "tileOf n = (n_tx n, n_ty n)"

definition pass1_inv :: "tilemap \<Rightarrow> int \<Rightarrow> (nat \<times> nat) list \<Rightarrow> (int \<Rightarrow> nat option) \<times> node list \<Rightarrow> bool" where
  "pass1_inv m rt ps st \<longleftrightarrow>
     map tileOf (snd st) = map (\<lambda>t. (int (snd t), int (fst t))) (filter (nodeTileP m rt) ps) \<and>
     (\<forall>i < length (snd st). n_id (snd st ! i) = i \<and>
        (n_x (snd st ! i), n_y (snd st ! i)) = tileToWorldCenter m (n_tx (snd st ! i)) (n_ty (snd st ! i))) \<and>
     (\<forall>k i. fst st k = Some i \<longleftrightarrow> i < length (snd st) \<and> idx (n_tx (snd st ! i)) (n_ty (snd st ! i)) (width m) = k)"

definition line :: "dir4 \<Rightarrow> tile \<Rightarrow> nat \<Rightarrow> tile list" where
  "line d p k = map (\<lambda>i. (fst p + int i * dx d, snd p + int i * dy d)) [0..<Suc k]"

definition outOf :: "dirEdge \<Rightarrow> outEdge" where
  "outOf e = \<lparr>a_to = e_to e, a_edge = e_id e, a_cost = e_cost e, a_dirX = e_dirX e,
              a_dirY = e_dirY e, a_lanes = e_lanes e, a_undirectedId = e_undirectedId e\<rparr>"

definition dedge_ok :: "tilemap \<Rightarrow> int \<Rightarrow> node list \<Rightarrow> dirEdge \<Rightarrow> bool" where
  "dedge_ok m rt ns e \<longleftrightarrow>
     (\<exists>d k. 1 \<le> k \<and> e_from e < length ns \<and> e_to e < length ns \<and> e_from e \<noteq> e_to e \<and>
        e_tiles e = line d (tileOf (ns ! e_from e)) k \<and>
        tileOf (ns ! e_to e) = line d (tileOf (ns ! e_from e)) k ! k \<and>
        (\<forall>t \<in> set (e_tiles e). isRoad m rt (fst t) (snd t)) \<and>
        e_cost e = real k \<and> e_dirX e = dx d \<and> e_dirY e = dy d \<and>
        segmentOk m d (e_tiles e))"

definition uidOf :: "build_state \<Rightarrow> nat \<Rightarrow> nat \<Rightarrow> nat" where
  "uidOf bs f t = (case bs_undirMap bs (min f t, max f t) of Some i \<Rightarrow> i
                   | None \<Rightarrow> length (bs_undirEdges bs))"

definition newEdge :: "tilemap \<Rightarrow> dir4 \<Rightarrow> nat \<Rightarrow> nat \<Rightarrow> tile list \<Rightarrow> build_state \<Rightarrow> dirEdge" where
  "newEdge m d f t tiles bs =
     \<lparr>e_id = length (bs_dirEdges bs), e_from = f, e_to = t, e_tiles = tiles,
      e_cost = real (max 1 (length tiles - 1)), e_dirX = dx d, e_dirY = dy d,
      e_lanes = segmentLaneCount m tiles, e_undirectedId = uidOf bs f t\<rparr>"

definition undir_inv :: "build_state \<Rightarrow> bool" where
  "undir_inv bs \<longleftrightarrow>
     (\<forall>i < length (bs_undirEdges bs).
        u_id (bs_undirEdges bs ! i) = i \<and> u_u (bs_undirEdges bs ! i) < u_v (bs_undirEdges bs ! i) \<and>
        \<not> u_isBridge (bs_undirEdges bs ! i) \<and> u_bridgeScore (bs_undirEdges bs ! i) = 0) \<and>
     (\<forall>lo hi i. bs_undirMap bs (lo, hi) = Some i \<longleftrightarrow>
        i < length (bs_undirEdges bs) \<and> u_u (bs_undirEdges bs ! i) = lo \<and>
        u_v (bs_undirEdges bs ! i) = hi)"

definition dir_inv :: "tilemap \<Rightarrow> int \<Rightarrow> node list \<Rightarrow> build_state \<Rightarrow> bool" where
  "dir_inv m rt ns bs \<longleftrightarrow>
     (\<forall>e \<in> set (bs_dirEdges bs). dedge_ok m rt ns e) \<and>
     (\<forall>i < length (bs_dirEdges bs). e_id (bs_dirEdges bs ! i) = i) \<and>
     bs_dirEdgeSet bs = (\<lambda>e. (e_from e, e_to e)) ` set (bs_dirEdges bs) \<and>
     distinct (map (\<lambda>e. (e_from e, e_to e)) (bs_dirEdges bs)) \<and>
     length (bs_adj bs) = length ns \<and>
     (\<forall>a < length ns. bs_adj bs ! a = map outOf (filter (\<lambda>e. e_from e = a) (bs_dirEdges bs)))"

definition link_inv :: "build_state \<Rightarrow> bool" where
  "link_inv bs \<longleftrightarrow>
     (\<forall>e \<in> set (bs_dirEdges bs).
        e_undirectedId e < length (bs_undirEdges bs) \<and>
        u_u (bs_undirEdges bs ! e_undirectedId e) = min (e_from e) (e_to e) \<and>
        u_v (bs_undirEdges bs ! e_undirectedId e) = max (e_from e) (e_to e)) \<and>
     (\<forall>i < length (bs_undirEdges bs). \<exists>e \<in> set (bs_dirEdges bs).
        u_u (bs_undirEdges bs ! i) = min (e_from e) (e_to e) \<and>
        u_v (bs_undirEdges bs ! i) = max (e_from e) (e_to e))"

definition pass2_inv :: "tilemap \<Rightarrow> int \<Rightarrow> node list \<Rightarrow> build_state \<Rightarrow> bool" where
  "pass2_inv m rt ns bs \<longleftrightarrow> dir_inv m rt ns bs \<and> undir_inv bs \<and> link_inv bs"

definition nodes_ok :: "tilemap \<Rightarrow> int \<Rightarrow> (int \<Rightarrow> nat option) \<Rightarrow> node list \<Rightarrow> bool" where
  "nodes_ok m rt nid ns \<longleftrightarrow>
     (\<forall>i < length ns. n_id (ns ! i) = i \<and> isRoad m rt (n_tx (ns ! i)) (n_ty (ns ! i))) \<and>
     (\<forall>k i. nid k = Some i \<longleftrightarrow> i < length ns \<and> idx (n_tx (ns ! i)) (n_ty (ns ! i)) (width m) = k)"

definition corridor :: "tilemap \<Rightarrow> int \<Rightarrow> dir4 \<Rightarrow> int \<Rightarrow> int \<Rightarrow> nat \<Rightarrow> bool" where
  "corridor m rt d x0 y0 k \<longleftrightarrow>
     (d = DirE \<or> d = DirS) \<and> 1 \<le> k \<and>
     (\<forall>x y. isRoad m rt x y \<longleftrightarrow> (\<exists>i \<le> k. x = x0 + int i * dx d \<and> y = y0 + int i * dy d))"

definition opp :: "dir4 \<Rightarrow> dir4" where
  "opp d = (case d of DirE \<Rightarrow> DirW | DirW \<Rightarrow> DirE | DirS \<Rightarrow> DirN | DirN \<Rightarrow> DirS)"

definition lexless :: "nat \<times> nat \<Rightarrow> nat \<times> nat \<Rightarrow> bool" where
  "lexless a b \<longleftrightarrow> fst a < fst b \<or> (fst a = fst b \<and> snd a < snd b)"

definition mkNode :: "tilemap \<Rightarrow> nat \<Rightarrow> int \<Rightarrow> int \<Rightarrow> node" where
  "mkNode m i x y = \<lparr>n_id = i, n_tx = x, n_ty = y, n_x = fst (tileToWorldCenter m x y),
                     n_y = snd (tileToWorldCenter m x y)\<rparr>"

definition bs0 :: "nat \<Rightarrow> build_state" where
  "bs0 n = \<lparr>bs_dirEdges = [], bs_undirEdges = [], bs_adj = replicate n [],
            bs_dirEdgeSet = {}, bs_undirMap = Map.empty\<rparr>"

definition stepF :: "tilemap \<Rightarrow> dir4 \<Rightarrow> int \<Rightarrow> int \<Rightarrow> nat \<Rightarrow> build_state \<Rightarrow> build_state" where
  "stepF m d x0 y0 k bs =
     (if segmentOk m d (line d (x0, y0) k) \<and> (0, 1) \<notin> bs_dirEdgeSet bs
      then addEdge m d 0 1 (line d (x0, y0) k) bs else bs)"

definition stepB :: "tilemap \<Rightarrow> dir4 \<Rightarrow> int \<Rightarrow> int \<Rightarrow> nat \<Rightarrow> build_state \<Rightarrow> build_state" where
  "stepB m d x0 y0 k bs =
     (if segmentOk m (opp d) (line (opp d) (x0 + int k * dx d, y0 + int k * dy d) k)
         \<and> (1, 0) \<notin> bs_dirEdgeSet bs
      then addEdge m (opp d) 1 0 (line (opp d) (x0 + int k * dx d, y0 + int k * dy d) k) bs
      else bs)"

definition unflag :: "undirEdge \<Rightarrow> undirEdge" where
  "unflag e = e\<lparr>u_isBridge := False\<rparr>"

definition rtOf :: "int option \<Rightarrow> int" where
  "rtOf opt = (case opt of Some r \<Rightarrow> r | None \<Rightarrow> 2)"

definition adjacent4 :: "tile \<Rightarrow> tile \<Rightarrow> bool" where
  "adjacent4 p q \<longleftrightarrow> \<bar>fst p - fst q\<bar> + \<bar>snd p - snd q\<bar> = 1"

definition strip10 :: tilemap where
  "strip10 = \<lparr>width = 10, height = 1, tileSize = None, tileAt = (\<lambda>x y. 2), isSolidTile = None,
     oneWayAt = None, laneCountAt = Some (\<lambda>x y. 2), roadGraph = None\<rparr>"

definition strip10_east :: tilemap where
  "strip10_east = strip10\<lparr>oneWayAt := Some (\<lambda>x y. 1)\<rparr>"

definition strip10_west0 :: tilemap where
  "strip10_west0 = strip10\<lparr>oneWayAt := Some (\<lambda>x y. if x = 0 then 2 else 0)\<rparr>"

definition grid2 :: tilemap where
  "grid2 = \<lparr>width = 801, height = 2, tileSize = None, tileAt = (\<lambda>x y. 2), isSolidTile = None,
     oneWayAt = None, laneCountAt = None, roadGraph = None\<rparr>"

definition lanePoint :: "tilemap \<Rightarrow> dirEdge \<Rightarrow> int \<Rightarrow> real \<Rightarrow> tile \<Rightarrow> real \<times> real" where
  "lanePoint m e lb lw p =
     (let lanes = max 1 (min 4 (e_lanes e));
          laneIndex = lb mod lanes;
          shift = (real_of_int laneIndex - (real_of_int lanes - 1) / 2) * lw;
          c = tileToWorldCenter m (fst p) (snd p)
      in (fst c + real_of_int (- e_dirY e) * shift, snd c + real_of_int (e_dirX e) * shift))"

definition opts3 :: wp_opts where
  "opts3 = \<lparr>opt_laneWidth = None, opt_laneBias = Some 3\<rparr>"

definition Dset :: "nat \<Rightarrow> tarjan \<Rightarrow> nat set" where
  "Dset N st = {x. x < N \<and> disc st x \<noteq> -1}"

definition ugraph :: "nat \<Rightarrow> (nat \<Rightarrow> (nat \<times> nat) list) \<Rightarrow> bool" where
  "ugraph N nb \<longleftrightarrow>
     (\<forall>x w e. x < N \<and> (w, e) \<in> set (nb x) \<longrightarrow>
        w < N \<and> (x, e) \<in> set (nb w) \<and> (\<forall>e'. (w, e') \<in> set (nb x) \<longrightarrow> e' = e))"

definition sep :: "nat \<Rightarrow> (nat \<Rightarrow> (nat \<times> nat) list) \<Rightarrow> nat \<Rightarrow> bool" where
  "sep N nb e \<longleftrightarrow>
     (\<exists>S. S \<subseteq> {..<N} \<and> (\<exists>x w. x \<in> S \<and> w \<notin> S \<and> (w, e) \<in> set (nb x)) \<and>
          (\<forall>x w e'. x \<in> S \<and> (w, e') \<in> set (nb x) \<and> e' \<noteq> e \<longrightarrow> w \<in> S))"

definition tinv :: "nat \<Rightarrow> (nat \<Rightarrow> (nat \<times> nat) list) \<Rightarrow> undirEdge list \<Rightarrow> tarjan \<Rightarrow> bool" where
  "tinv N nb ues0 st \<longleftrightarrow>
     (\<forall>x. x \<in> Dset N st \<longrightarrow> 0 \<le> disc st x \<and> disc st x < int (time st)) \<and>
     length (t_edges st) = length ues0 \<and>
     (\<forall>i < length ues0. u_isBridge (t_edges st ! i) \<longrightarrow> u_isBridge (ues0 ! i) \<or> sep N nb i)"

definition sinv ::
  "nat \<Rightarrow> (nat \<Rightarrow> (nat \<times> nat) list) \<Rightarrow> nat set \<Rightarrow> nat set \<Rightarrow> tarjan \<Rightarrow> nat \<Rightarrow> (nat \<times> nat) list \<Rightarrow> bool" where
  "sinv N nb B A st u dn \<longleftrightarrow>
     u < N \<and> u \<in> A \<and> A \<subseteq> Dset N st \<and> B \<subseteq> Dset N st \<and> u \<notin> B \<and> A - {u} \<subseteq> B \<and>
     (\<forall>a. a \<in> A \<longrightarrow> disc st a \<le> disc st u) \<and>
     (\<forall>x w e. x \<in> Dset N st \<and> x \<notin> A \<and> (w, e) \<in> set (nb x) \<longrightarrow> w \<in> Dset N st) \<and>
     low st u \<le> disc st u \<and>
     (\<forall>w e. (w, e) \<in> set dn \<longrightarrow> w \<in> Dset N st \<and> (int w = parent st u \<or> low st u \<le> disc st w)) \<and>
     (\<forall>x w e. x \<in> Dset N st \<and> x \<notin> B \<and> x \<noteq> u \<and> (w, e) \<in> set (nb x) \<longrightarrow> low st u \<le> disc st w)"

definition frame :: "nat \<Rightarrow> tarjan \<Rightarrow> tarjan \<Rightarrow> nat \<Rightarrow> bool" where
  "frame N st st' u \<longleftrightarrow>
     Dset N st \<subseteq> Dset N st' \<and>
     (\<forall>x. x \<in> Dset N st \<longrightarrow> disc st' x = disc st x \<and> parent st' x = parent st x \<and>
          (x \<noteq> u \<longrightarrow> low st' x = low st x))"

definition topinv :: "nat \<Rightarrow> (nat \<Rightarrow> (nat \<times> nat) list) \<Rightarrow> undirEdge list \<Rightarrow> tarjan \<Rightarrow> bool" where
  "topinv N nb ues0 st \<longleftrightarrow>
     tinv N nb ues0 st \<and>
     (\<forall>x w e. x \<in> Dset N st \<and> (w, e) \<in> set (nb x) \<longrightarrow> w \<in> Dset N st)"

definition simple_ues :: "nat \<Rightarrow> undirEdge list \<Rightarrow> bool" where
  "simple_ues N ues \<longleftrightarrow>
     (\<forall>i < length ues. u_id (ues ! i) = i \<and> u_u (ues ! i) < u_v (ues ! i) \<and> u_v (ues ! i) < N) \<and>
     (\<forall>i < length ues. \<forall>j < length ues.
        u_u (ues ! i) = u_u (ues ! j) \<and> u_v (ues ! i) = u_v (ues ! j) \<longrightarrow> i = j)"

definition undStep :: "undirEdge \<Rightarrow> (nat \<times> nat) list list \<Rightarrow> (nat \<times> nat) list list" where
  "undStep e a = (let a1 = a[u_u e := a ! u_u e @ [(u_v e, u_id e)]]
                  in a1[u_v e := a1 ! u_v e @ [(u_u e, u_id e)]])"

definition uadj :: "undirEdge list \<Rightarrow> nat set \<Rightarrow> (nat \<times> nat) set" where
  "uadj ues X = {(a, b). \<exists>i < length ues. i \<notin> X \<and>
                   ((u_u (ues ! i) = a \<and> u_v (ues ! i) = b) \<or>
                    (u_u (ues ! i) = b \<and> u_v (ues ! i) = a))}"

definition joined :: "nat \<Rightarrow> undirEdge list \<Rightarrow> nat set \<Rightarrow> (nat \<times> nat) set" where
  "joined N ues X = {(a, b). a < N \<and> b < N \<and> (a, b) \<in> (uadj ues X)\<^sup>*}"

definition componentCount :: "nat \<Rightarrow> undirEdge list \<Rightarrow> nat set \<Rightarrow> nat" where
  "componentCount N ues X = card ({..<N} // joined N ues X)"

definition keptTiles :: "bool \<Rightarrow> tile list \<Rightarrow> tile list" where
  "keptTiles skipFirst tiles =
     map (\<lambda>t. tiles ! t)
       (filter (\<lambda>t. (t = 0 \<and> \<not> skipFirst) \<or> (0 < t \<and> (t = length tiles - 1 \<or> even t)))
          [0..<length tiles])"

definition wrap32 :: "int \<Rightarrow> int" where
  "wrap32 b = (b + 2147483648) mod 4294967296 - 2147483648"

definition edgeBetween :: "graph \<Rightarrow> int \<Rightarrow> int \<Rightarrow> outEdge option" where
  "edgeBetween g a b =
     (if 0 \<le> a \<and> a < int (length (adj g)) then List.find (\<lambda>x. int (a_to x) = b) (adj g ! nat a)
      else None)"

definition strip10_lanes3 :: tilemap where
  "strip10_lanes3 = \<lparr>width = 10, height = 1, tileSize = None, tileAt = (\<lambda>x y. 2), isSolidTile = None,
     oneWayAt = None, laneCountAt = Some (\<lambda>x y. 3), roadGraph = None\<rparr>"

definition optsWrap :: wp_opts where
  "optsWrap = \<lparr>opt_laneWidth = None, opt_laneBias = Some 4294967297\<rparr>"





definition tout :: "nat \<Rightarrow> nat \<Rightarrow> int \<Rightarrow> int \<Rightarrow> nat \<Rightarrow> outEdge" where
  "tout t i ddx ddy u =
     \<lparr>a_to = t, a_edge = i, a_cost = 1, a_dirX = ddx, a_dirY = ddy, a_lanes = 1,
      a_undirectedId = u\<rparr>"



text \<open>Walks of a graph given by its edges \<open>E x y w\<close> (from \<open>x\<close> to \<open>y\<close>, of cost \<open>w\<close>),
  with their costs.\<close>
inductive awalk :: "('n \<Rightarrow> 'n \<Rightarrow> real \<Rightarrow> bool) \<Rightarrow> 'n \<Rightarrow> real \<Rightarrow> 'n \<Rightarrow> bool"
  for E :: "'n \<Rightarrow> 'n \<Rightarrow> real \<Rightarrow> bool" and s :: 'n where
  awalk_refl: "awalk E s 0 s"
| awalk_step: "awalk E s c x \<Longrightarrow> E x y w \<Longrightarrow> awalk E s (c + w) y"






















definition dout :: "nat \<Rightarrow> nat \<Rightarrow> real \<Rightarrow> outEdge" where
  "dout t i c = \<lparr>a_to = t, a_edge = i, a_cost = c, a_dirX = 0, a_dirY = 1, a_lanes = 1,
                 a_undirectedId = i\<rparr>"


section \<open>Verification\<close>

declare walk.simps [simp del]
declare bfs.simps [simp del]
declare heap_up.simps [simp del]
declare heap_down.simps [simp del]

subsection \<open>The one-tile map\<close>

lemma dot1_sel:
  "width dot1 = 1" "height dot1 = 1" "tileSize dot1 = None" "roadGraph dot1 = None"
  "tileAt dot1 x y = 2"
  by (simp_all add: dot1_def)

lemma dot1_road: "isRoad dot1 2 x y \<longleftrightarrow> x = 0 \<and> y = 0"
  by (auto simp: isRoad_def inBounds_def dot1_sel)

lemma dot1_pass1: "snd (pass1 dot1 2) = [\<lparr>n_id = 0, n_tx = 0, n_ty = 0, n_x = 32, n_y = 32\<rparr>]"
  by (simp add: pass1_def pass1_tile_def dot1_road isNodeTile_def openDirs_def DIRS4_def
      tileToWorldCenter_def tileSizeOf_def Let_def dot1_sel)

lemma dot1_pass3:
  "btn (pass3 dot1 2 [\<lparr>n_id = 0, n_tx = 0, n_ty = 0, n_x = 32, n_y = 32\<rparr>]) 0 = Some 0"
  by (simp add: pass3_def bfs_seed_def bfs.simps[of _ _ 0] bfs.simps[of _ _ "Suc 0"]
      bfs_dir_def dot1_road DIRS4_def idx_def Let_def)

lemma dot1_nodes: "length (nodes (buildRoadGraph dot1 None)) = 1"
  by (simp add: buildRoadGraph_def Let_def dot1_pass1)

lemma dot1_snap:
  assumes "0 \<le> x" "x < 64" "0 \<le> y" "y < 64"
  shows "fst (snapWorldToNearestRoadNode dot1 x y 14) = Some 0"
proof -
  have "worldToTile dot1 x y = Some (0, 0)" using assms
    by (simp add: worldToTile_def tileSizeOf_def dot1_sel floor_eq_iff)
  moreover have "worldToTile (dot1\<lparr>roadGraph := r\<rparr>) = worldToTile dot1" for r
    by (simp add: worldToTile_def tileSizeOf_def fun_eq_iff)
  ultimately show ?thesis
    by (simp add: snapWorldToNearestRoadNode_def ensureRoadGraph_def buildRoadGraph_def Let_def
        snapWorldToRoadTile_def dot1_pass1 dot1_pass3 idx_def dot1_sel inBounds_def)
qed

subsection \<open>C7: trivial and out-of-range queries of the graph A*\<close>

text \<open>
  C7, as stated, fails. The test \<open>startId === goalId\<close> comes before the range test, so a
  query whose start and goal are the same id outside \<open>[0, nodeCount)\<close> returns the
  one-node path, not "no path": on the graph of the one-tile map (one node), start and
  goal 7 give the path \<open>[7]\<close>.
\<close>

theorem findNodePathAStar_same_id_out_of_range:
  "int (length (nodes (buildRoadGraph dot1 None))) \<le> 7 \<and>
   findNodePathAStar (Some (buildRoadGraph dot1 None)) (Some 7) (Some 7) 8000 = Some (Some [7]) \<and>
   findNodePathAStar (Some (buildRoadGraph dot1 None)) (Some 7) (Some 7) 8000 \<noteq> Some None"
  by (simp add: findNodePathAStar_def dot1_nodes)

text \<open>
  C7, amended: for every graph and every iteration cap (also the cap 0, so no iteration
  of the search runs), a query with start equal to goal returns the path \<open>[start]\<close>,
  and a query with start different from goal and one of them outside
  \<open>[0, nodeCount)\<close> returns no path.
\<close>

theorem findNodePathAStar_trivial_or_out_of_range:
  "findNodePathAStar (Some g) (Some s) (Some s) maxIters = Some (Some [s]) \<and>
   (s \<noteq> t \<and> (s < 0 \<or> int (length (nodes g)) \<le> s \<or> t < 0 \<or> int (length (nodes g)) \<le> t)
      \<longrightarrow> findNodePathAStar (Some g) (Some s) (Some t) maxIters = Some None)"
  by (auto simp: findNodePathAStar_def Let_def)

theorem findNodePathAStar_trivial_or_out_of_range_witness:
  "findNodePathAStar (Some (buildRoadGraph dot1 None)) (Some 0) (Some 0) 0 = Some (Some [0]) \<and>
   findNodePathAStar (Some (buildRoadGraph dot1 None)) (Some 0) (Some 5) 0 = Some None \<and>
   findNodePathAStar (Some (buildRoadGraph dot1 None)) (Some (-1)) (Some 0) 8000 = Some None"
  using findNodePathAStar_trivial_or_out_of_range
          [of "buildRoadGraph dot1 None" 0 0 5]
        findNodePathAStar_trivial_or_out_of_range
          [of "buildRoadGraph dot1 None" "-1" 8000 0]
  by (simp add: dot1_nodes)

subsection \<open>C10: start and goal on the same node\<close>

lemma snapTile_cache: "snapWorldToRoadTile (m\<lparr>roadGraph := r\<rparr>) = snapWorldToRoadTile m"
  by (auto simp: snapWorldToRoadTile_def worldToTile_def tileSizeOf_def inBounds_def fun_eq_iff
      split: option.splits)

lemma snap_after_ensure:
  "snapWorldToNearestRoadNode (snd (ensureRoadGraph m)) wx wy r =
     (fst (snapWorldToNearestRoadNode m wx wy r), snd (ensureRoadGraph m))"
  by (auto simp: snapWorldToNearestRoadNode_def ensureRoadGraph_def Let_def snapTile_cache
      split: option.splits prod.splits)

text \<open>
  C10: whenever the start and the goal position snap to the same road node,
  \<open>findGraphWaypoints\<close> returns null (the value \<open>Some None\<close>): no waypoints, although
  the node exists and the one-node route is there.
\<close>

theorem findGraphWaypoints_same_node:
  assumes "fst (snapWorldToNearestRoadNode m startX startY 14) = Some n"
      and "fst (snapWorldToNearestRoadNode m goalX goalY 14) = Some n"
    shows "findGraphWaypoints m startX startY goalX goalY opts = Some None"
proof -
  obtain g m1 where e: "ensureRoadGraph m = (g, m1)" by (cases "ensureRoadGraph m")
  have m1: "m1 = snd (ensureRoadGraph m)" using e by simp
  have s1: "snapWorldToNearestRoadNode m1 startX startY 14 = (Some n, m1)"
    using assms(1) by (simp add: m1 snap_after_ensure)
  have s2: "snapWorldToNearestRoadNode m1 goalX goalY 14 = (Some n, m1)"
    using assms(2) by (simp add: m1 snap_after_ensure)
  show ?thesis by (simp add: findGraphWaypoints_def e s1 s2)
qed

theorem findGraphWaypoints_same_node_witness:
  "fst (snapWorldToNearestRoadNode dot1 10 10 14) = Some 0 \<and>
   fst (snapWorldToNearestRoadNode dot1 40 50 14) = Some 0 \<and>
   findGraphWaypoints dot1 10 10 40 50 \<lparr>opt_laneWidth = None, opt_laneBias = None\<rparr> = Some None"
proof -
  have a: "fst (snapWorldToNearestRoadNode dot1 10 10 14) = Some 0"
    by (rule dot1_snap) simp_all
  have b: "fst (snapWorldToNearestRoadNode dot1 40 50 14) = Some 0"
    by (rule dot1_snap) simp_all
  show ?thesis using a b findGraphWaypoints_same_node[OF a b] by simp
qed

subsection \<open>Loops as folds\<close>

lemma fold_invariant:
  assumes "P s" and "\<And>x s. x \<in> set xs \<Longrightarrow> P s \<Longrightarrow> P (f x s)"
  shows "P (fold f xs s)"
  using assms by (induction xs arbitrary: s) auto

lemma fold_product:
  "fold (\<lambda>x st. fold (f x) ys st) xs st = fold (\<lambda>p. f (fst p) (snd p)) (List.product xs ys) st"
proof (induction xs arbitrary: st)
  case Nil
  show ?case by simp
next
  case (Cons x xs)
  have "fold (\<lambda>p. f (fst p) (snd p)) (map (Pair x) ys) st = fold (f x) ys st"
    by (simp add: fold_map comp_def)
  then show ?case using Cons by simp
qed

subsection \<open>Pass 1\<close>

lemma pass1_fold:
  "pass1 m rt = fold (\<lambda>t. pass1_tile m rt (int (fst t)) (int (snd t))) (tileList m) (Map.empty, [])"
  by (simp add: pass1_def tileList_def fold_product)

lemma idx_inj:
  assumes "inBounds m x y" "inBounds m x' y'" "idx x y (width m) = idx x' y' (width m)"
  shows "x = x' \<and> y = y'"
proof -
  let ?w = "int (width m)"
  from assms have b: "0 \<le> x" "x < ?w" "0 \<le> x'" "x' < ?w"
    and e: "y * ?w + x = y' * ?w + x'"
    by (auto simp: inBounds_def idx_def)
  have "(y * ?w + x) div ?w = y" using b by (simp add: div_pos_pos_trivial)
  moreover have "(y' * ?w + x') div ?w = y'" using b by (simp add: div_pos_pos_trivial)
  ultimately have "y = y'" using e by simp
  then show ?thesis using e by simp
qed

lemma tileList_inBounds: "t \<in> set (tileList m) \<Longrightarrow> inBounds m (int (snd t)) (int (fst t))"
  by (auto simp: tileList_def inBounds_def)

lemma tileList_distinct: "distinct (tileList m)"
  by (simp add: tileList_def distinct_product)

lemma pass1_inv_step:
  assumes inv: "pass1_inv m rt ps st"
    and t: "inBounds m (int (snd t)) (int (fst t))" "t \<notin> set ps"
    and ps: "\<forall>p \<in> set ps. inBounds m (int (snd p)) (int (fst p))"
  shows "pass1_inv m rt (ps @ [t]) (pass1_tile m rt (int (fst t)) (int (snd t)) st)"
proof (cases "nodeTileP m rt t")
  case False
  then show ?thesis using inv
    by (auto simp: pass1_inv_def pass1_tile_def nodeTileP_def)
next
  case True
  obtain nid ns where st: "st = (nid, ns)" by (cases st)
  let ?c = "tileToWorldCenter m (int (snd t)) (int (fst t))"
  let ?n = "\<lparr>n_id = length ns, n_tx = int (snd t), n_ty = int (fst t), n_x = fst ?c, n_y = snd ?c\<rparr>"
  have step: "pass1_tile m rt (int (fst t)) (int (snd t)) st =
        (nid(idx (int (snd t)) (int (fst t)) (width m) \<mapsto> length ns), ns @ [?n])"
    using True by (simp add: pass1_tile_def nodeTileP_def st Let_def)
  have tiles: "map tileOf ns = map (\<lambda>t. (int (snd t), int (fst t))) (filter (nodeTileP m rt) ps)"
    using inv by (simp add: pass1_inv_def st)
  have old: "\<And>i. i < length ns \<Longrightarrow> inBounds m (n_tx (ns ! i)) (n_ty (ns ! i)) \<and> (n_tx (ns ! i), n_ty (ns ! i)) \<noteq> (int (snd t), int (fst t))"
  proof -
    fix i assume i: "i < length ns"
    then have "tileOf (ns ! i) \<in> set (map tileOf ns)" by (metis length_map nth_map nth_mem)
    then obtain p where p: "p \<in> set ps" "tileOf (ns ! i) = (int (snd p), int (fst p))"
      by (auto simp: tiles)
    then have "p \<noteq> t" using t by auto
    then have "(int (snd p), int (fst p)) \<noteq> (int (snd t), int (fst t))" by (auto simp: prod_eq_iff)
    then show "inBounds m (n_tx (ns ! i)) (n_ty (ns ! i)) \<and> (n_tx (ns ! i), n_ty (ns ! i)) \<noteq> (int (snd t), int (fst t))"
      using p ps by (auto simp: tileOf_def)
  qed
  have a: "map tileOf (ns @ [?n]) = map (\<lambda>t. (int (snd t), int (fst t))) (filter (nodeTileP m rt) (ps @ [t]))"
    using True tiles by (simp add: tileOf_def)
  have b: "\<forall>i < length (ns @ [?n]). n_id ((ns @ [?n]) ! i) = i \<and>
        (n_x ((ns @ [?n]) ! i), n_y ((ns @ [?n]) ! i)) = tileToWorldCenter m (n_tx ((ns @ [?n]) ! i)) (n_ty ((ns @ [?n]) ! i))"
    using inv by (auto simp: pass1_inv_def st nth_append)
  have c: "\<forall>k i. (nid(idx (int (snd t)) (int (fst t)) (width m) \<mapsto> length ns)) k = Some i \<longleftrightarrow>
        i < length (ns @ [?n]) \<and> idx (n_tx ((ns @ [?n]) ! i)) (n_ty ((ns @ [?n]) ! i)) (width m) = k"
  proof (intro allI)
    fix k i
    have nidinv: "\<And>k i. nid k = Some i \<longleftrightarrow> i < length ns \<and> idx (n_tx (ns ! i)) (n_ty (ns ! i)) (width m) = k"
      using inv by (simp add: pass1_inv_def st)
    show "(nid(idx (int (snd t)) (int (fst t)) (width m) \<mapsto> length ns)) k = Some i \<longleftrightarrow>
        i < length (ns @ [?n]) \<and> idx (n_tx ((ns @ [?n]) ! i)) (n_ty ((ns @ [?n]) ! i)) (width m) = k"
    proof (cases "i < length ns")
      case True
      have "idx (n_tx (ns ! i)) (n_ty (ns ! i)) (width m) \<noteq> idx (int (snd t)) (int (fst t)) (width m)"
        using old[OF True] idx_inj[OF _ t(1)] by blast
      then show ?thesis using True nidinv[of k i] by (auto simp: nth_append)
    next
      case False
      then show ?thesis using nidinv[of k i] by (auto simp: nth_append)
    qed
  qed
  show ?thesis unfolding pass1_inv_def step using a b c by simp
qed

lemma pass1_inv_fold:
  assumes "distinct ps" "\<forall>p \<in> set ps. inBounds m (int (snd p)) (int (fst p))"
  shows "pass1_inv m rt ps (fold (\<lambda>t. pass1_tile m rt (int (fst t)) (int (snd t))) ps (Map.empty, []))"
  using assms
proof (induction ps rule: rev_induct)
  case Nil
  show ?case by (simp add: pass1_inv_def)
next
  case (snoc t ps)
  have "pass1_inv m rt (ps @ [t]) (pass1_tile m rt (int (fst t)) (int (snd t)) (fold (\<lambda>t. pass1_tile m rt (int (fst t)) (int (snd t))) ps (Map.empty, [])))"
    using snoc by (intro pass1_inv_step) auto
  then show ?case by simp
qed

lemma pass1_inv: "pass1_inv m rt (tileList m) (pass1 m rt)"
  unfolding pass1_fold
  by (intro pass1_inv_fold tileList_distinct ballI tileList_inBounds)

subsection \<open>Pass 2: the walk\<close>

lemma line_length [simp]: "length (line d p k) = Suc k"
  by (simp add: line_def)

lemma line_nth: "i \<le> k \<Longrightarrow> line d p k ! i = (fst p + int i * dx d, snd p + int i * dy d)"
  unfolding line_def by (subst nth_map) (auto simp del: upt_Suc simp: nth_upt)

lemma line_Suc: "line d p (Suc k) = line d p k @ [(fst p + int (Suc k) * dx d, snd p + int (Suc k) * dy d)]"
  by (simp add: line_def)

lemma walk_result:
  assumes "walk m rt nid n0 d x y tiles = Some (to, ts)"
  shows "\<exists>j. ts = tiles @ line d (x, y) j \<and>
             (\<forall>i \<le> j. isRoad m rt (x + int i * dx d) (y + int i * dy d)) \<and>
             nid (idx (x + int j * dx d) (y + int j * dy d) (width m)) = Some to \<and> to \<noteq> n0"
  using assms
proof (induction m rt nid n0 d x y tiles rule: walk.induct)
  case (1 m rt nid n0 d x y tiles)
  from "1.prems" have road: "isRoad m rt x y"
    by (subst (asm) walk.simps) (auto split: if_splits)
  show ?case
  proof (cases "\<exists>k. nid (idx x y (width m)) = Some k \<and> k \<noteq> n0")
    case True
    then have "to = the (nid (idx x y (width m)))" "ts = tiles @ [(x, y)]"
      using "1.prems" road by (subst (asm) walk.simps; auto simp: Let_def)+
    then show ?thesis using True road
      by (intro exI[of _ 0]) (auto simp: line_def)
  next
    case False
    then have rec: "walk m rt nid n0 d (x + dx d) (y + dy d) (tiles @ [(x, y)]) = Some (to, ts)"
      using "1.prems" road by (subst (asm) walk.simps) (auto simp: Let_def split: option.splits)
    have "\<exists>j. ts = (tiles @ [(x, y)]) @ line d (x + dx d, y + dy d) j \<and>
             (\<forall>i \<le> j. isRoad m rt (x + dx d + int i * dx d) (y + dy d + int i * dy d)) \<and>
             nid (idx (x + dx d + int j * dx d) (y + dy d + int j * dy d) (width m)) = Some to \<and> to \<noteq> n0"
    proof (cases "nid (idx x y (width m))")
      case None
      show ?thesis using "1.IH"(1)[OF road refl None rec] .
    next
      case (Some k)
      then have "\<not> k \<noteq> n0" using False by auto
      then show ?thesis using "1.IH"(2)[OF road refl Some _ rec] by blast
    qed
    then obtain j where j: "ts = (tiles @ [(x, y)]) @ line d (x + dx d, y + dy d) j"
      "\<forall>i \<le> j. isRoad m rt (x + dx d + int i * dx d) (y + dy d + int i * dy d)"
      "nid (idx (x + dx d + int j * dx d) (y + dy d + int j * dy d) (width m)) = Some to" "to \<noteq> n0"
      by blast
    have l: "[(x, y)] @ line d (x + dx d, y + dy d) j = line d (x, y) (Suc j)"
      unfolding line_def
      by (rule nth_equalityI) (auto simp: nth_append nth_Cons algebra_simps simp del: upt_Suc split: nat.splits)
    have r: "\<forall>i \<le> Suc j. isRoad m rt (x + int i * dx d) (y + int i * dy d)"
    proof (intro allI impI)
      fix i assume "i \<le> Suc j"
      show "isRoad m rt (x + int i * dx d) (y + int i * dy d)"
      proof (cases i)
        case 0 then show ?thesis using road by simp
      next
        case (Suc i')
        then have "i' \<le> j" using \<open>i \<le> Suc j\<close> by simp
        then show ?thesis using j(2) Suc by (auto simp: algebra_simps)
      qed
    qed
    show ?thesis
      by (intro exI[of _ "Suc j"]) (use j l r in \<open>auto simp: algebra_simps\<close>)
  qed
qed

subsection \<open>Pass 2: the build state\<close>

lemma addEdge_dirEdges:
  "bs_dirEdges (addEdge m d f t tiles bs) = bs_dirEdges bs @ [newEdge m d f t tiles bs]"
  by (simp add: addEdge_def newEdge_def uidOf_def Let_def)

lemma addEdge_dirEdgeSet:
  "bs_dirEdgeSet (addEdge m d f t tiles bs) = insert (f, t) (bs_dirEdgeSet bs)"
  by (simp add: addEdge_def Let_def)

lemma addEdge_adj:
  "bs_adj (addEdge m d f t tiles bs) =
     (bs_adj bs)[f := bs_adj bs ! f @ [outOf (newEdge m d f t tiles bs)]]"
  by (simp add: addEdge_def newEdge_def outOf_def uidOf_def Let_def)

lemma addEdge_undirMap:
  "bs_undirMap (addEdge m d f t tiles bs) =
     (case bs_undirMap bs (min f t, max f t) of Some i \<Rightarrow> bs_undirMap bs
      | None \<Rightarrow> (bs_undirMap bs)((min f t, max f t) \<mapsto> length (bs_undirEdges bs)))"
  by (simp add: addEdge_def Let_def split: option.splits)

lemma addEdge_undirEdges_Some:
  assumes "bs_undirMap bs (min f t, max f t) = Some i"
  shows "bs_undirEdges (addEdge m d f t tiles bs) =
     (bs_undirEdges bs)[i := (bs_undirEdges bs ! i)
        \<lparr>u_dirEdgeIds := u_dirEdgeIds (bs_undirEdges bs ! i) @ [length (bs_dirEdges bs)],
         u_cost := min (u_cost (bs_undirEdges bs ! i)) (real (max 1 (length tiles - 1)))\<rparr>]"
  using assms by (simp add: addEdge_def Let_def)

lemma addEdge_undirEdges_None:
  assumes "bs_undirMap bs (min f t, max f t) = None"
  shows "bs_undirEdges (addEdge m d f t tiles bs) =
     bs_undirEdges bs @
       [\<lparr>u_id = length (bs_undirEdges bs), u_u = min f t, u_v = max f t,
         u_cost = real (max 1 (length tiles - 1)), u_isBridge = False, u_bridgeScore = 0,
         u_dirEdgeIds = [length (bs_dirEdges bs)]\<rparr>]"
  using assms by (simp add: addEdge_def Let_def)

text \<open>The undirected edges and their Map.\<close>

lemma undir_inv_addEdge:
  assumes "undir_inv bs" "f \<noteq> t"
  shows "undir_inv (addEdge m d f t tiles bs)"
proof (cases "bs_undirMap bs (min f t, max f t)")
  case None
  let ?ues = "bs_undirEdges bs @
       [\<lparr>u_id = length (bs_undirEdges bs), u_u = min f t, u_v = max f t,
         u_cost = real (max 1 (length tiles - 1)), u_isBridge = False, u_bridgeScore = 0,
         u_dirEdgeIds = [length (bs_dirEdges bs)]\<rparr>]"
  have fresh: "\<And>i. i < length (bs_undirEdges bs) \<Longrightarrow>
      \<not> (u_u (bs_undirEdges bs ! i) = min f t \<and> u_v (bs_undirEdges bs ! i) = max f t)"
    using assms(1) None unfolding undir_inv_def by (metis option.distinct(1))
  have lt: "min f t < max f t" using assms(2) by auto
  have a: "\<forall>i < length ?ues. u_id (?ues ! i) = i \<and> u_u (?ues ! i) < u_v (?ues ! i) \<and>
        \<not> u_isBridge (?ues ! i) \<and> u_bridgeScore (?ues ! i) = 0"
    using assms(1) lt unfolding undir_inv_def by (auto simp: nth_append)
  have b: "((bs_undirMap bs)((min f t, max f t) \<mapsto> length (bs_undirEdges bs))) (lo, hi) = Some i \<longleftrightarrow>
        i < length ?ues \<and> u_u (?ues ! i) = lo \<and> u_v (?ues ! i) = hi" for lo hi i
  proof (cases "i < length (bs_undirEdges bs)")
    case True
    then show ?thesis using assms(1) fresh[OF True] unfolding undir_inv_def
      by (auto simp: nth_append)
  next
    case False
    then show ?thesis using assms(1) unfolding undir_inv_def
      by (auto simp: nth_append)
  qed
  show ?thesis
    unfolding undir_inv_def addEdge_undirEdges_None[OF None] addEdge_undirMap None
    using a b by simp
next
  case (Some j)
  let ?ues = "(bs_undirEdges bs)[j := (bs_undirEdges bs ! j)
        \<lparr>u_dirEdgeIds := u_dirEdgeIds (bs_undirEdges bs ! j) @ [length (bs_dirEdges bs)],
         u_cost := min (u_cost (bs_undirEdges bs ! j)) (real (max 1 (length tiles - 1)))\<rparr>]"
  have j: "j < length (bs_undirEdges bs)" "u_u (bs_undirEdges bs ! j) = min f t"
      "u_v (bs_undirEdges bs ! j) = max f t"
    using assms(1) Some unfolding undir_inv_def by blast+
  have a: "\<forall>i < length ?ues. u_id (?ues ! i) = i \<and> u_u (?ues ! i) < u_v (?ues ! i) \<and>
        \<not> u_isBridge (?ues ! i) \<and> u_bridgeScore (?ues ! i) = 0"
    using assms(1) j unfolding undir_inv_def by (auto simp: nth_list_update)
  have b: "bs_undirMap bs (lo, hi) = Some i \<longleftrightarrow>
        i < length ?ues \<and> u_u (?ues ! i) = lo \<and> u_v (?ues ! i) = hi" for lo hi i
    using assms(1) j unfolding undir_inv_def
    by (cases "i = j") (auto simp: nth_list_update)
  show ?thesis
    unfolding undir_inv_def addEdge_undirEdges_Some[OF Some] addEdge_undirMap Some
    using a b by simp
qed

lemma uidOf_props:
  assumes "undir_inv bs" "f \<noteq> t"
  shows "uidOf bs f t < length (bs_undirEdges (addEdge m d f t tiles bs)) \<and>
         u_u (bs_undirEdges (addEdge m d f t tiles bs) ! uidOf bs f t) = min f t \<and>
         u_v (bs_undirEdges (addEdge m d f t tiles bs) ! uidOf bs f t) = max f t"
proof (cases "bs_undirMap bs (min f t, max f t)")
  case None
  then show ?thesis by (simp add: uidOf_def addEdge_undirEdges_None)
next
  case (Some j)
  have j: "j < length (bs_undirEdges bs)" "u_u (bs_undirEdges bs ! j) = min f t"
      "u_v (bs_undirEdges bs ! j) = max f t"
    using assms(1) Some unfolding undir_inv_def by blast+
  then show ?thesis using Some by (simp add: uidOf_def addEdge_undirEdges_Some)
qed

lemma addEdge_undir_keep:
  assumes "undir_inv bs" "i < length (bs_undirEdges bs)"
  shows "i < length (bs_undirEdges (addEdge m d f t tiles bs)) \<and>
         u_u (bs_undirEdges (addEdge m d f t tiles bs) ! i) = u_u (bs_undirEdges bs ! i) \<and>
         u_v (bs_undirEdges (addEdge m d f t tiles bs) ! i) = u_v (bs_undirEdges bs ! i)"
proof (cases "bs_undirMap bs (min f t, max f t)")
  case None
  then show ?thesis using assms(2) by (simp add: addEdge_undirEdges_None nth_append)
next
  case (Some j)
  then show ?thesis using assms(2)
    by (cases "i = j") (simp_all add: addEdge_undirEdges_Some nth_list_update)
qed

lemma addEdge_undir_length:
  "length (bs_undirEdges (addEdge m d f t tiles bs)) \<le> Suc (length (bs_undirEdges bs))"
  by (cases "bs_undirMap bs (min f t, max f t)")
     (simp_all add: addEdge_undirEdges_None addEdge_undirEdges_Some)

text \<open>The directed edges, the Set of their endpoint pairs, and the adjacency.\<close>

lemma dir_inv_addEdge:
  assumes inv: "dir_inv m rt ns bs"
    and ok: "dedge_ok m rt ns (newEdge m d f t tiles bs)"
    and new: "(f, t) \<notin> bs_dirEdgeSet bs"
  shows "dir_inv m rt ns (addEdge m d f t tiles bs)"
proof -
  have f: "f < length ns" using ok by (auto simp: dedge_ok_def newEdge_def)
  have ft: "e_from (newEdge m d f t tiles bs) = f" "e_to (newEdge m d f t tiles bs) = t"
    "e_id (newEdge m d f t tiles bs) = length (bs_dirEdges bs)"
    by (simp_all add: newEdge_def)
  have 1: "\<forall>e \<in> set (bs_dirEdges (addEdge m d f t tiles bs)). dedge_ok m rt ns e"
    using inv ok by (auto simp: dir_inv_def addEdge_dirEdges)
  have 2: "\<forall>i < length (bs_dirEdges (addEdge m d f t tiles bs)).
              e_id (bs_dirEdges (addEdge m d f t tiles bs) ! i) = i"
    using inv by (auto simp: dir_inv_def addEdge_dirEdges nth_append ft)
  have 3: "bs_dirEdgeSet (addEdge m d f t tiles bs) =
             (\<lambda>e. (e_from e, e_to e)) ` set (bs_dirEdges (addEdge m d f t tiles bs))"
    using inv by (auto simp: dir_inv_def addEdge_dirEdges addEdge_dirEdgeSet ft)
  have 4: "distinct (map (\<lambda>e. (e_from e, e_to e)) (bs_dirEdges (addEdge m d f t tiles bs)))"
    using inv new by (auto simp: dir_inv_def addEdge_dirEdges ft)
  have 5: "length (bs_adj (addEdge m d f t tiles bs)) = length ns"
    using inv by (simp add: dir_inv_def addEdge_adj)
  have 6: "\<forall>a < length ns. bs_adj (addEdge m d f t tiles bs) ! a =
             map outOf (filter (\<lambda>e. e_from e = a) (bs_dirEdges (addEdge m d f t tiles bs)))"
  proof (intro allI impI)
    fix a assume a: "a < length ns"
    have old: "bs_adj bs ! a = map outOf (filter (\<lambda>e. e_from e = a) (bs_dirEdges bs))"
      and len: "length (bs_adj bs) = length ns"
      using inv a by (auto simp: dir_inv_def)
    show "bs_adj (addEdge m d f t tiles bs) ! a =
             map outOf (filter (\<lambda>e. e_from e = a) (bs_dirEdges (addEdge m d f t tiles bs)))"
      using old len a f by (cases "a = f") (simp_all add: addEdge_adj addEdge_dirEdges ft)
  qed
  show ?thesis unfolding dir_inv_def using 1 2 3 4 5 6 by blast
qed

text \<open>Directed and undirected edges together.\<close>

lemma link_inv_addEdge:
  assumes "link_inv bs" "undir_inv bs" "f \<noteq> t"
  shows "link_inv (addEdge m d f t tiles bs)"
proof -
  let ?bs' = "addEdge m d f t tiles bs"
  have ft: "e_from (newEdge m d f t tiles bs) = f" "e_to (newEdge m d f t tiles bs) = t"
    "e_undirectedId (newEdge m d f t tiles bs) = uidOf bs f t"
    by (simp_all add: newEdge_def)
  have a: "\<forall>e \<in> set (bs_dirEdges ?bs').
        e_undirectedId e < length (bs_undirEdges ?bs') \<and>
        u_u (bs_undirEdges ?bs' ! e_undirectedId e) = min (e_from e) (e_to e) \<and>
        u_v (bs_undirEdges ?bs' ! e_undirectedId e) = max (e_from e) (e_to e)"
  proof
    fix e assume "e \<in> set (bs_dirEdges ?bs')"
    then consider "e \<in> set (bs_dirEdges bs)" | "e = newEdge m d f t tiles bs"
      by (auto simp: addEdge_dirEdges)
    then show "e_undirectedId e < length (bs_undirEdges ?bs') \<and>
        u_u (bs_undirEdges ?bs' ! e_undirectedId e) = min (e_from e) (e_to e) \<and>
        u_v (bs_undirEdges ?bs' ! e_undirectedId e) = max (e_from e) (e_to e)"
    proof cases
      case 1
      then have "e_undirectedId e < length (bs_undirEdges bs)"
        "u_u (bs_undirEdges bs ! e_undirectedId e) = min (e_from e) (e_to e)"
        "u_v (bs_undirEdges bs ! e_undirectedId e) = max (e_from e) (e_to e)"
        using assms(1) by (auto simp: link_inv_def)
      then show ?thesis using addEdge_undir_keep[OF assms(2), of "e_undirectedId e" m d f t tiles]
        by simp
    next
      case 2
      then show ?thesis using uidOf_props[OF assms(2,3), of m d tiles] by (simp add: ft)
    qed
  qed
  have b: "\<forall>i < length (bs_undirEdges ?bs'). \<exists>e \<in> set (bs_dirEdges ?bs').
        u_u (bs_undirEdges ?bs' ! i) = min (e_from e) (e_to e) \<and>
        u_v (bs_undirEdges ?bs' ! i) = max (e_from e) (e_to e)"
  proof (intro allI impI)
    fix i assume i: "i < length (bs_undirEdges ?bs')"
    show "\<exists>e \<in> set (bs_dirEdges ?bs').
        u_u (bs_undirEdges ?bs' ! i) = min (e_from e) (e_to e) \<and>
        u_v (bs_undirEdges ?bs' ! i) = max (e_from e) (e_to e)"
    proof (cases "i < length (bs_undirEdges bs)")
      case True
      then obtain e where "e \<in> set (bs_dirEdges bs)"
        "u_u (bs_undirEdges bs ! i) = min (e_from e) (e_to e)"
        "u_v (bs_undirEdges bs ! i) = max (e_from e) (e_to e)"
        using assms(1) by (auto simp: link_inv_def)
      then show ?thesis using addEdge_undir_keep[OF assms(2) True, of m d f t tiles]
        by (auto simp: addEdge_dirEdges)
    next
      case False
      then have None: "bs_undirMap bs (min f t, max f t) = None"
        using i by (cases "bs_undirMap bs (min f t, max f t)") (auto simp: addEdge_undirEdges_Some)
      then have "i = length (bs_undirEdges bs)" using i False
        by (simp add: addEdge_undirEdges_None)
      then show ?thesis using None
        by (intro bexI[of _ "newEdge m d f t tiles bs"])
           (simp_all add: addEdge_undirEdges_None addEdge_dirEdges ft)
    qed
  qed
  show ?thesis unfolding link_inv_def using a b by blast
qed

lemma pass2_inv_addEdge:
  assumes "pass2_inv m rt ns bs" "dedge_ok m rt ns (newEdge m d f t tiles bs)"
    "(f, t) \<notin> bs_dirEdgeSet bs"
  shows "pass2_inv m rt ns (addEdge m d f t tiles bs)"
proof -
  have "f \<noteq> t" using assms(2) by (auto simp: dedge_ok_def newEdge_def)
  then show ?thesis using assms
    by (auto simp: pass2_inv_def intro: dir_inv_addEdge undir_inv_addEdge link_inv_addEdge)
qed

lemma pass1_nodes_ok: "nodes_ok m rt (fst (pass1 m rt)) (snd (pass1 m rt))"
proof -
  have inv: "pass1_inv m rt (tileList m) (pass1 m rt)" by (rule pass1_inv)
  let ?ns = "snd (pass1 m rt)"
  have "isRoad m rt (n_tx (?ns ! i)) (n_ty (?ns ! i))" if "i < length ?ns" for i
  proof -
    have "tileOf (?ns ! i) \<in> set (map tileOf ?ns)" using that by (metis length_map nth_map nth_mem)
    also have "map tileOf ?ns = map (\<lambda>t. (int (snd t), int (fst t))) (filter (nodeTileP m rt) (tileList m))"
      using inv by (simp add: pass1_inv_def)
    finally obtain p where "nodeTileP m rt p" "tileOf (?ns ! i) = (int (snd p), int (fst p))"
      by auto
    then show ?thesis by (auto simp: nodeTileP_def tileOf_def)
  qed
  then show ?thesis using inv unfolding nodes_ok_def pass1_inv_def by blast
qed

lemma line_Cons: "p # line d (fst p + dx d, snd p + dy d) j = line d p (Suc j)"
  unfolding line_def
  by (rule nth_equalityI)
     (auto simp: nth_append nth_Cons algebra_simps simp del: upt_Suc split: nat.splits)

lemma line_set: "t \<in> set (line d p k) \<longleftrightarrow> (\<exists>i \<le> k. t = (fst p + int i * dx d, snd p + int i * dy d))"
  unfolding line_def by (auto simp del: upt_Suc simp: image_iff Bex_def less_Suc_eq_le)

lemma pass2_dir_inv:
  assumes ok: "nodes_ok m rt nid ns" and inv: "pass2_inv m rt ns bs" and n: "i < length ns"
  shows "pass2_inv m rt ns (pass2_dir m rt nid (ns ! i) d bs)"
proof -
  let ?n = "ns ! i"
  let ?sx = "n_tx ?n + dx d" and ?sy = "n_ty ?n + dy d"
  have nid_n: "n_id ?n = i" and road_n: "isRoad m rt (n_tx ?n) (n_ty ?n)"
    using ok n by (auto simp: nodes_ok_def)
  show ?thesis
  proof (cases "isRoad m rt ?sx ?sy")
    case False
    then show ?thesis using inv by (simp add: pass2_dir_def Let_def)
  next
    case True
    show ?thesis
    proof (cases "walk m rt nid (n_id ?n) d ?sx ?sy [(n_tx ?n, n_ty ?n)]")
      case None
      then show ?thesis using inv True by (simp add: pass2_dir_def Let_def)
    next
      case (Some r)
      obtain to ts where r: "r = (to, ts)" by (cases r)
      from walk_result[OF Some[unfolded r]] obtain j where
        ts: "ts = [(n_tx ?n, n_ty ?n)] @ line d (?sx, ?sy) j"
        and roads: "\<forall>q \<le> j. isRoad m rt (?sx + int q * dx d) (?sy + int q * dy d)"
        and to: "nid (idx (?sx + int j * dx d) (?sy + int j * dy d) (width m)) = Some to"
        and ne: "to \<noteq> n_id ?n"
        by blast
      have ts': "ts = line d (n_tx ?n, n_ty ?n) (Suc j)"
        using ts line_Cons[of "(n_tx ?n, n_ty ?n)" d j] by simp
      have to_lt: "to < length ns"
        and to_idx: "idx (n_tx (ns ! to)) (n_ty (ns ! to)) (width m)
                     = idx (?sx + int j * dx d) (?sy + int j * dy d) (width m)"
        using ok to unfolding nodes_ok_def by blast+
      have "isRoad m rt (n_tx (ns ! to)) (n_ty (ns ! to))"
        using ok to_lt by (auto simp: nodes_ok_def)
      then have to_tile: "n_tx (ns ! to) = ?sx + int j * dx d \<and> n_ty (ns ! to) = ?sy + int j * dy d"
        using idx_inj[OF _ _ to_idx] roads by (auto simp: isRoad_def)
      have all_road: "\<forall>t \<in> set ts. isRoad m rt (fst t) (snd t)"
      proof
        fix t assume "t \<in> set ts"
        then obtain q where q: "q \<le> Suc j" "t = (n_tx ?n + int q * dx d, n_ty ?n + int q * dy d)"
          unfolding ts' line_set by auto
        show "isRoad m rt (fst t) (snd t)"
        proof (cases q)
          case 0
          then show ?thesis using q road_n by simp
        next
          case (Suc q')
          then have "q' \<le> j" using q by simp
          then show ?thesis using roads q Suc by (auto simp: algebra_simps)
        qed
      qed
      show ?thesis
      proof (cases "segmentOk m d ts \<and> (n_id ?n, to) \<notin> bs_dirEdgeSet bs")
        case False
        then show ?thesis using inv True Some r by (auto simp: pass2_dir_def Let_def)
      next
        case yes: True
        have "dedge_ok m rt ns (newEdge m d (n_id ?n) to ts bs)"
          unfolding dedge_ok_def
          apply (rule exI[of _ d], rule exI[of _ "Suc j"])
          using n to_lt ne nid_n to_tile all_road yes
          by (simp add: newEdge_def ts' tileOf_def line_nth algebra_simps)
        then have "pass2_inv m rt ns (addEdge m d (n_id ?n) to ts bs)"
          using inv yes by (intro pass2_inv_addEdge) auto
        then show ?thesis using True Some r yes by (simp add: pass2_dir_def Let_def)
      qed
    qed
  qed
qed

lemma pass2_init_inv:
  "pass2_inv m rt ns \<lparr>bs_dirEdges = [], bs_undirEdges = [], bs_adj = replicate (length ns) [],
        bs_dirEdgeSet = {}, bs_undirMap = Map.empty\<rparr>"
  by (simp add: pass2_inv_def dir_inv_def undir_inv_def link_inv_def)

lemma pass2_inv_pass2:
  assumes "nodes_ok m rt nid ns"
  shows "pass2_inv m rt ns (pass2 m rt nid ns)"
  unfolding pass2_def
proof (rule fold_invariant[where P = "pass2_inv m rt ns"], rule pass2_init_inv)
  fix n bs assume n: "n \<in> set ns" and inv: "pass2_inv m rt ns bs"
  then obtain i where i: "i < length ns" "n = ns ! i" by (auto simp: in_set_conv_nth)
  show "pass2_inv m rt ns (fold (pass2_dir m rt nid n) DIRS4 bs)"
    by (rule fold_invariant[where P = "pass2_inv m rt ns"], rule inv)
       (simp add: i pass2_dir_inv[OF assms _ i(1)])
qed

subsection \<open>A straight strip of road\<close>

lemma ex_le_int: "(\<exists>i \<le> k. a = int i) \<longleftrightarrow> 0 \<le> a \<and> a \<le> int k"
proof
  assume "0 \<le> a \<and> a \<le> int k"
  then have "nat a \<le> k \<and> a = int (nat a)" by auto
  then show "\<exists>i \<le> k. a = int i" by blast
qed auto

lemma corridor_road:
  assumes "corridor m rt d x0 y0 k"
  shows "isRoad m rt (x0 + a * dx d + b * dy d) (y0 + a * dy d + b * dx d) \<longleftrightarrow>
           b = 0 \<and> 0 \<le> a \<and> a \<le> int k"
proof -
  have d: "d = DirE \<or> d = DirS" using assms by (simp add: corridor_def)
  have "isRoad m rt (x0 + a * dx d + b * dy d) (y0 + a * dy d + b * dx d) \<longleftrightarrow>
        (\<exists>i \<le> k. x0 + a * dx d + b * dy d = x0 + int i * dx d \<and> y0 + a * dy d + b * dx d = y0 + int i * dy d)"
    using assms by (simp add: corridor_def)
  also have "\<dots> \<longleftrightarrow> b = 0 \<and> (\<exists>i \<le> k. a = int i)" using d by auto
  finally show ?thesis by (simp add: ex_le_int)
qed

lemma corridor_openDirs:
  assumes c: "corridor m rt d x0 y0 k" and i: "i \<le> k"
  shows "openDirs m rt (x0 + int i * dx d) (y0 + int i * dy d) =
           (if d = DirE then (if i < k then [DirE] else []) @ (if 1 \<le> i then [DirW] else [])
            else (if i < k then [DirS] else []) @ (if 1 \<le> i then [DirN] else []))"
proof -
  have d: "d = DirE \<or> d = DirS" using c by (simp add: corridor_def)
  have r: "isRoad m rt (x0 + int i * dx d + dx d') (y0 + int i * dy d + dy d') \<longleftrightarrow>
           (d' = d \<and> i < k) \<or> (d' = opp d \<and> 1 \<le> i)" for d'
  proof (cases "d' = d \<or> d' = opp d")
    case True
    then show ?thesis
    proof
      assume e: "d' = d"
      have "isRoad m rt (x0 + (int i + 1) * dx d + 0 * dy d) (y0 + (int i + 1) * dy d + 0 * dx d) \<longleftrightarrow> i < k"
        unfolding corridor_road[OF c] by auto
      then show ?thesis using e d by (auto simp: algebra_simps opp_def)
    next
      assume e: "d' = opp d"
      have "isRoad m rt (x0 + (int i - 1) * dx d + 0 * dy d) (y0 + (int i - 1) * dy d + 0 * dx d) \<longleftrightarrow> 1 \<le> i"
        unfolding corridor_road[OF c] using i by auto
      then show ?thesis using e d by (auto simp: algebra_simps opp_def)
    qed
  next
    case False
    then obtain b where b: "b = 1 \<or> b = -1" "dx d' = b * dy d" "dy d' = b * dx d"
      using d by (cases d'; cases d) (auto simp: opp_def)
    have "\<not> isRoad m rt (x0 + int i * dx d + b * dy d) (y0 + int i * dy d + b * dx d)"
      unfolding corridor_road[OF c] using b by auto
    then show ?thesis using False b by simp
  qed
  have rE: "isRoad m rt (x0 + int i * dx d + 1) (y0 + int i * dy d) \<longleftrightarrow> d = DirE \<and> i < k"
    using r[of DirE] d by (auto simp: opp_def)
  have rW: "isRoad m rt (x0 + int i * dx d - 1) (y0 + int i * dy d) \<longleftrightarrow> d = DirE \<and> 1 \<le> i"
    using r[of DirW] d by (auto simp: opp_def)
  have rS: "isRoad m rt (x0 + int i * dx d) (y0 + int i * dy d + 1) \<longleftrightarrow> d = DirS \<and> i < k"
    using r[of DirS] d by (auto simp: opp_def)
  have rN: "isRoad m rt (x0 + int i * dx d) (y0 + int i * dy d - 1) \<longleftrightarrow> d = DirS \<and> 1 \<le> i"
    using r[of DirN] d by (auto simp: opp_def)
  show ?thesis
    using d rE rW rS rN by (elim disjE) (simp_all add: openDirs_def DIRS4_def)
qed

lemma corridor_isNode:
  assumes c: "corridor m rt d x0 y0 k" and i: "i \<le> k"
  shows "isNodeTile m rt (x0 + int i * dx d) (y0 + int i * dy d) \<longleftrightarrow> i = 0 \<or> i = k"
proof -
  have "1 \<le> k" using c by (simp add: corridor_def)
  then show ?thesis
    using i unfolding isNodeTile_def corridor_openDirs[OF c i]
    by (auto simp: Let_def isOpposite_def)
qed

lemma sorted_product:
  "sorted_wrt (<) xs \<Longrightarrow> sorted_wrt (<) ys \<Longrightarrow> sorted_wrt lexless (List.product xs ys)"
  by (induction xs) (auto simp: sorted_wrt_append sorted_wrt_map lexless_def)

lemma tileList_sorted: "sorted_wrt lexless (tileList m)"
  unfolding tileList_def by (intro sorted_product) simp_all

lemma filter_two:
  assumes "sorted_wrt lexless xs" "a \<in> set xs" "b \<in> set xs" "lexless a b"
    and "\<forall>x \<in> set xs. P x \<longleftrightarrow> x = a \<or> x = b"
  shows "filter P xs = [a, b]"
proof -
  let ?ys = "filter P xs"
  have s: "sorted_wrt lexless ?ys" using assms(1) by (rule sorted_wrt_filter)
  have st: "set ?ys = {a, b}" using assms(2,3,5) by auto
  have irr: "\<not> lexless x x" for x by (simp add: lexless_def)
  have asym: "lexless x y \<Longrightarrow> \<not> lexless y x" for x y by (auto simp: lexless_def)
  show ?thesis
  proof (cases ?ys)
    case Nil
    then show ?thesis using st by simp
  next
    case (Cons y1 r1)
    show ?thesis
    proof (cases r1)
      case Nil
      then have "a = b" using st Cons by auto
      then show ?thesis using assms(4) irr by simp
    next
      case c2: (Cons y2 r2)
      have l: "lexless y1 y2" "\<forall>z \<in> set r2. lexless y2 z" using s Cons c2 by auto
      have m: "y1 \<in> {a, b}" "y2 \<in> {a, b}" "set r2 \<subseteq> {a, b}" using st Cons c2 by auto
      have "y1 = a \<or> y1 = b" "y2 = a \<or> y2 = b" using m by auto
      then have y: "y1 = a \<and> y2 = b" using l(1) irr[of a] irr[of b] asym[OF assms(4)] by blast
      have "r2 = []"
      proof (cases r2)
        case (Cons z r3)
        then have "lexless b z" "z \<in> {a, b}" using l(2) m(3) y by auto
        then show ?thesis using irr[of b] asym[OF assms(4)] by blast
      qed simp
      then show ?thesis using Cons c2 y by simp
    qed
  qed
qed

lemma corridor_bounds:
  assumes c: "corridor m rt d x0 y0 k" and i: "i \<le> k"
  shows "inBounds m (x0 + int i * dx d) (y0 + int i * dy d)"
    and "isRoad m rt (x0 + int i * dx d) (y0 + int i * dy d)"
proof -
  show "isRoad m rt (x0 + int i * dx d) (y0 + int i * dy d)"
    using c i unfolding corridor_def by blast
  then show "inBounds m (x0 + int i * dx d) (y0 + int i * dy d)" by (simp add: isRoad_def)
qed

lemma corridor_nodeTileP:
  assumes c: "corridor m rt d x0 y0 k" and t: "t \<in> set (tileList m)"
  shows "nodeTileP m rt t \<longleftrightarrow>
           t = (nat y0, nat x0) \<or> t = (nat (y0 + int k * dy d), nat (x0 + int k * dx d))"
proof
  assume "nodeTileP m rt t"
  then have r: "isRoad m rt (int (snd t)) (int (fst t))"
        and n: "isNodeTile m rt (int (snd t)) (int (fst t))"
    by (auto simp: nodeTileP_def)
  from r c obtain i where i: "i \<le> k" "int (snd t) = x0 + int i * dx d" "int (fst t) = y0 + int i * dy d"
    unfolding corridor_def by blast
  have "i = 0 \<or> i = k" using n corridor_isNode[OF c i(1)] i by simp
  then show "t = (nat y0, nat x0) \<or> t = (nat (y0 + int k * dy d), nat (x0 + int k * dx d))"
    using i by (cases t) auto
next
  assume a: "t = (nat y0, nat x0) \<or> t = (nat (y0 + int k * dy d), nat (x0 + int k * dx d))"
  have b0: "inBounds m x0 y0" using corridor_bounds(1)[OF c, of 0] by simp
  have bk: "inBounds m (x0 + int k * dx d) (y0 + int k * dy d)"
    using corridor_bounds(1)[OF c, of k] by simp
  from a show "nodeTileP m rt t"
  proof
    assume "t = (nat y0, nat x0)"
    then have "int (snd t) = x0 + int 0 * dx d" "int (fst t) = y0 + int 0 * dy d"
      using b0 by (auto simp: inBounds_def)
    then show ?thesis
      unfolding nodeTileP_def using corridor_bounds(2)[OF c, of 0] corridor_isNode[OF c, of 0]
      by simp
  next
    assume "t = (nat (y0 + int k * dy d), nat (x0 + int k * dx d))"
    then have "int (snd t) = x0 + int k * dx d" "int (fst t) = y0 + int k * dy d"
      using bk by (auto simp: inBounds_def)
    then show ?thesis
      unfolding nodeTileP_def using corridor_bounds(2)[OF c, of k] corridor_isNode[OF c, of k]
      by simp
  qed
qed

lemma in_tileList: "inBounds m x y \<Longrightarrow> (nat y, nat x) \<in> set (tileList m)"
  by (auto simp: tileList_def inBounds_def)

lemma corridor_filter:
  assumes c: "corridor m rt d x0 y0 k"
  shows "filter (nodeTileP m rt) (tileList m) =
           [(nat y0, nat x0), (nat (y0 + int k * dy d), nat (x0 + int k * dx d))]"
proof (rule filter_two[OF tileList_sorted])
  have b0: "inBounds m x0 y0" using corridor_bounds(1)[OF c, of 0] by simp
  have bk: "inBounds m (x0 + int k * dx d) (y0 + int k * dy d)"
    using corridor_bounds(1)[OF c, of k] by simp
  show "(nat y0, nat x0) \<in> set (tileList m)" by (rule in_tileList[OF b0])
  show "(nat (y0 + int k * dy d), nat (x0 + int k * dx d)) \<in> set (tileList m)"
    by (rule in_tileList[OF bk])
  have "d = DirE \<or> d = DirS" "1 \<le> k" using c by (auto simp: corridor_def)
  then show "lexless (nat y0, nat x0) (nat (y0 + int k * dy d), nat (x0 + int k * dx d))"
    using b0 by (auto simp: lexless_def inBounds_def)
  show "\<forall>x \<in> set (tileList m). nodeTileP m rt x \<longleftrightarrow>
          x = (nat y0, nat x0) \<or> x = (nat (y0 + int k * dy d), nat (x0 + int k * dx d))"
    using corridor_nodeTileP[OF c] by blast
qed

lemma corridor_nodes:
  assumes c: "corridor m rt d x0 y0 k"
  shows "snd (pass1 m rt) = [mkNode m 0 x0 y0, mkNode m 1 (x0 + int k * dx d) (y0 + int k * dy d)]"
proof -
  let ?ns = "snd (pass1 m rt)"
  have inv: "pass1_inv m rt (tileList m) (pass1 m rt)" by (rule pass1_inv)
  have b0: "inBounds m x0 y0" using corridor_bounds(1)[OF c, of 0] by simp
  have bk: "inBounds m (x0 + int k * dx d) (y0 + int k * dy d)"
    using corridor_bounds(1)[OF c, of k] by simp
  have tiles: "map tileOf ?ns = [(x0, y0), (x0 + int k * dx d, y0 + int k * dy d)]"
    using inv b0 bk unfolding pass1_inv_def corridor_filter[OF c] by (simp add: inBounds_def)
  then have len: "length ?ns = 2" by (metis length_map length_Cons list.size(3) numeral_2_eq_2)
  have f: "\<And>i. i < 2 \<Longrightarrow> n_id (?ns ! i) = i \<and>
        (n_x (?ns ! i), n_y (?ns ! i)) = tileToWorldCenter m (n_tx (?ns ! i)) (n_ty (?ns ! i))"
    using inv len unfolding pass1_inv_def by simp
  have t0: "tileOf (?ns ! 0) = (x0, y0)"
    using tiles len by (metis nth_map nth_Cons_0 zero_less_numeral)
  have t1: "tileOf (?ns ! 1) = (x0 + int k * dx d, y0 + int k * dy d)"
    using tiles len by (metis nth_map nth_Cons_0 nth_Cons_Suc One_nat_def one_less_numeral_iff semiring_norm(76))
  have fx: "n_x (?ns ! i) = fst (tileToWorldCenter m (n_tx (?ns ! i)) (n_ty (?ns ! i)))"
    and fy: "n_y (?ns ! i) = snd (tileToWorldCenter m (n_tx (?ns ! i)) (n_ty (?ns ! i)))"
    if "i < 2" for i
    using f[OF that] by (metis fst_conv, metis snd_conv)
  have e0: "?ns ! 0 = mkNode m 0 x0 y0"
    using f[of 0] fx[of 0] fy[of 0] t0 by (cases "?ns ! 0") (simp add: mkNode_def tileOf_def)
  have e1: "?ns ! 1 = mkNode m 1 (x0 + int k * dx d) (y0 + int k * dy d)"
    using f[of 1] fx[of 1] fy[of 1] t1 by (cases "?ns ! 1") (simp add: mkNode_def tileOf_def)
  have "?ns = [?ns ! 0, ?ns ! 1]"
    using len by (intro nth_equalityI) (auto simp: nth_Cons less_Suc_eq numeral_2_eq_2)
  then show ?thesis using e0 e1 by simp
qed

lemma corridor_nid:
  assumes c: "corridor m rt d x0 y0 k" and j: "j \<le> k"
  shows "fst (pass1 m rt) (idx (x0 + int j * dx d) (y0 + int j * dy d) (width m)) =
           (if j = 0 then Some 0 else if j = k then Some 1 else None)"
proof -
  let ?nid = "fst (pass1 m rt)" and ?ns = "snd (pass1 m rt)"
  let ?key = "idx (x0 + int j * dx d) (y0 + int j * dy d) (width m)"
  have ok: "\<And>key i. ?nid key = Some i \<longleftrightarrow>
      i < length ?ns \<and> idx (n_tx (?ns ! i)) (n_ty (?ns ! i)) (width m) = key"
    using pass1_nodes_ok[of m rt] unfolding nodes_ok_def by blast
  have ns: "?ns = [mkNode m 0 x0 y0, mkNode m 1 (x0 + int k * dx d) (y0 + int k * dy d)]"
    by (rule corridor_nodes[OF c])
  have d: "d = DirE \<or> d = DirS" and k: "1 \<le> k" using c by (auto simp: corridor_def)
  have bj: "inBounds m (x0 + int j * dx d) (y0 + int j * dy d)" by (rule corridor_bounds(1)[OF c j])
  have b0: "inBounds m x0 y0" using corridor_bounds(1)[OF c, of 0] by simp
  have bk: "inBounds m (x0 + int k * dx d) (y0 + int k * dy d)"
    using corridor_bounds(1)[OF c, of k] by simp
  have k0: "idx x0 y0 (width m) = ?key \<longleftrightarrow> j = 0"
    using idx_inj[OF b0 bj] d by auto
  have kk: "idx (x0 + int k * dx d) (y0 + int k * dy d) (width m) = ?key \<longleftrightarrow> j = k"
    using idx_inj[OF bk bj] d by auto
  have s0: "?nid ?key = Some 0 \<longleftrightarrow> j = 0"
    unfolding ok using k0 by (simp add: ns mkNode_def)
  have s1: "?nid ?key = Some 1 \<longleftrightarrow> j = k"
    unfolding ok using kk by (simp add: ns mkNode_def)
  have s2: "?nid ?key = Some i \<Longrightarrow> i = 0 \<or> i = 1" for i
    unfolding ok by (auto simp: ns)
  show ?thesis
  proof (cases "?nid ?key")
    case None
    then show ?thesis using s0 s1 by auto
  next
    case (Some i)
    then show ?thesis using s0 s1 s2[of i] k by auto
  qed
qed

lemma walk_straight:
  assumes "\<forall>i<j. isRoad m rt (x + int i * dx d) (y + int i * dy d) \<and>
             (nid (idx (x + int i * dx d) (y + int i * dy d) (width m)) = None \<or>
              nid (idx (x + int i * dx d) (y + int i * dy d) (width m)) = Some n0)"
    and "isRoad m rt (x + int j * dx d) (y + int j * dy d)"
    and "nid (idx (x + int j * dx d) (y + int j * dy d) (width m)) = Some to" "to \<noteq> n0"
  shows "walk m rt nid n0 d x y tiles = Some (to, tiles @ line d (x, y) j)"
  using assms
proof (induction j arbitrary: x y tiles)
  case 0
  then show ?case by (subst walk.simps) (simp add: line_def)
next
  case (Suc j)
  have here: "isRoad m rt x y" "nid (idx x y (width m)) = None \<or> nid (idx x y (width m)) = Some n0"
    using Suc.prems(1)[rule_format, of 0] by simp_all
  have "walk m rt nid n0 d (x + dx d) (y + dy d) (tiles @ [(x, y)]) =
          Some (to, (tiles @ [(x, y)]) @ line d (x + dx d, y + dy d) j)"
  proof (rule Suc.IH)
    show "\<forall>i<j. isRoad m rt (x + dx d + int i * dx d) (y + dy d + int i * dy d) \<and>
             (nid (idx (x + dx d + int i * dx d) (y + dy d + int i * dy d) (width m)) = None \<or>
              nid (idx (x + dx d + int i * dx d) (y + dy d + int i * dy d) (width m)) = Some n0)"
    proof (intro allI impI)
      fix i assume "i < j"
      then have "Suc i < Suc j" by simp
      from Suc.prems(1)[rule_format, OF this]
      show "isRoad m rt (x + dx d + int i * dx d) (y + dy d + int i * dy d) \<and>
             (nid (idx (x + dx d + int i * dx d) (y + dy d + int i * dy d) (width m)) = None \<or>
              nid (idx (x + dx d + int i * dx d) (y + dy d + int i * dy d) (width m)) = Some n0)"
        by (simp add: algebra_simps)
    qed
    show "isRoad m rt (x + dx d + int j * dx d) (y + dy d + int j * dy d)"
      using Suc.prems(2) by (simp add: algebra_simps)
    show "nid (idx (x + dx d + int j * dx d) (y + dy d + int j * dy d) (width m)) = Some to"
      using Suc.prems(3) by (simp add: algebra_simps)
    show "to \<noteq> n0" by (rule Suc.prems(4))
  qed
  then have "walk m rt nid n0 d (x + dx d) (y + dy d) (tiles @ [(x, y)]) =
          Some (to, tiles @ line d (x, y) (Suc j))"
    using line_Cons[of "(x, y)" d j] by simp
  then show ?case using here by (subst walk.simps) (auto simp: Let_def)
qed

lemma opp_dx: "dx (opp d) = - dx d" "dy (opp d) = - dy d"
  by (cases d; simp add: opp_def)+

lemma corridor_step_road:
  assumes c: "corridor m rt d x0 y0 k" and i: "i \<le> k"
  shows "isRoad m rt (x0 + int i * dx d + dx d') (y0 + int i * dy d + dy d') \<longleftrightarrow>
           (d' = d \<and> i < k) \<or> (d' = opp d \<and> 1 \<le> i)"
proof -
  have d: "d = DirE \<or> d = DirS" using c by (simp add: corridor_def)
  show ?thesis
  proof (cases "d' = d \<or> d' = opp d")
    case True
    then show ?thesis
    proof
      assume e: "d' = d"
      have "isRoad m rt (x0 + (int i + 1) * dx d + 0 * dy d) (y0 + (int i + 1) * dy d + 0 * dx d) \<longleftrightarrow> i < k"
        unfolding corridor_road[OF c] by auto
      then show ?thesis using e d by (auto simp: algebra_simps opp_def)
    next
      assume e: "d' = opp d"
      have "isRoad m rt (x0 + (int i - 1) * dx d + 0 * dy d) (y0 + (int i - 1) * dy d + 0 * dx d) \<longleftrightarrow> 1 \<le> i"
        unfolding corridor_road[OF c] using i by auto
      then show ?thesis using e d by (auto simp: algebra_simps opp_def)
    qed
  next
    case False
    then obtain b where b: "b = 1 \<or> b = -1" "dx d' = b * dy d" "dy d' = b * dx d"
      using d by (cases d'; cases d) (auto simp: opp_def)
    have "\<not> isRoad m rt (x0 + int i * dx d + b * dy d) (y0 + int i * dy d + b * dx d)"
      unfolding corridor_road[OF c] using b by auto
    then show ?thesis using False b by simp
  qed
qed

lemma corridor_walk_fwd:
  assumes c: "corridor m rt d x0 y0 k"
  shows "walk m rt (fst (pass1 m rt)) 0 d (x0 + dx d) (y0 + dy d) [(x0, y0)] =
           Some (1, line d (x0, y0) k)"
proof -
  have k: "1 \<le> k" using c by (simp add: corridor_def)
  have pos: "x0 + dx d + int i * dx d = x0 + int (Suc i) * dx d"
            "y0 + dy d + int i * dy d = y0 + int (Suc i) * dy d" for i
    by (simp_all add: algebra_simps)
  have "walk m rt (fst (pass1 m rt)) 0 d (x0 + dx d) (y0 + dy d) [(x0, y0)] =
          Some (1, [(x0, y0)] @ line d (x0 + dx d, y0 + dy d) (k - 1))"
  proof (rule walk_straight)
    show "\<forall>i<k - 1. isRoad m rt (x0 + dx d + int i * dx d) (y0 + dy d + int i * dy d) \<and>
       (fst (pass1 m rt) (idx (x0 + dx d + int i * dx d) (y0 + dy d + int i * dy d) (width m)) = None \<or>
        fst (pass1 m rt) (idx (x0 + dx d + int i * dx d) (y0 + dy d + int i * dy d) (width m)) = Some 0)"
    proof (intro allI impI)
      fix i assume i: "i < k - 1"
      then have ik: "Suc i \<le> k" by simp
      have r: "isRoad m rt (x0 + int (Suc i) * dx d) (y0 + int (Suc i) * dy d)"
        by (rule corridor_bounds(2)[OF c ik])
      have n: "fst (pass1 m rt) (idx (x0 + int (Suc i) * dx d) (y0 + int (Suc i) * dy d) (width m)) = None"
        using corridor_nid[OF c ik] i by (simp del: of_nat_Suc)
      show "isRoad m rt (x0 + dx d + int i * dx d) (y0 + dy d + int i * dy d) \<and>
       (fst (pass1 m rt) (idx (x0 + dx d + int i * dx d) (y0 + dy d + int i * dy d) (width m)) = None \<or>
        fst (pass1 m rt) (idx (x0 + dx d + int i * dx d) (y0 + dy d + int i * dy d) (width m)) = Some 0)"
        unfolding pos using r n by blast
    qed
    show "isRoad m rt (x0 + dx d + int (k - 1) * dx d) (y0 + dy d + int (k - 1) * dy d)"
      unfolding pos using corridor_bounds(2)[OF c, of k] k by simp
    show "fst (pass1 m rt) (idx (x0 + dx d + int (k - 1) * dx d) (y0 + dy d + int (k - 1) * dy d) (width m)) = Some 1"
      unfolding pos using corridor_nid[OF c, of k] k by simp
  qed simp
  then show ?thesis using line_Cons[of "(x0, y0)" d "k - 1"] k by simp
qed

lemma corridor_walk_back:
  assumes c: "corridor m rt d x0 y0 k"
  shows "walk m rt (fst (pass1 m rt)) 1 (opp d)
           (x0 + int k * dx d + dx (opp d)) (y0 + int k * dy d + dy (opp d))
           [(x0 + int k * dx d, y0 + int k * dy d)] =
           Some (0, line (opp d) (x0 + int k * dx d, y0 + int k * dy d) k)"
proof -
  have k: "1 \<le> k" using c by (simp add: corridor_def)
  have pos: "i < k \<Longrightarrow> x0 + int k * dx d + dx (opp d) + int i * dx (opp d) = x0 + int (k - 1 - i) * dx d"
            "i < k \<Longrightarrow> y0 + int k * dy d + dy (opp d) + int i * dy (opp d) = y0 + int (k - 1 - i) * dy d" for i
    by (simp_all add: algebra_simps opp_dx of_nat_diff)
  have "walk m rt (fst (pass1 m rt)) 1 (opp d)
           (x0 + int k * dx d + dx (opp d)) (y0 + int k * dy d + dy (opp d))
           [(x0 + int k * dx d, y0 + int k * dy d)] =
          Some (0, [(x0 + int k * dx d, y0 + int k * dy d)] @
                   line (opp d) (x0 + int k * dx d + dx (opp d), y0 + int k * dy d + dy (opp d)) (k - 1))"
  proof (rule walk_straight)
    show "\<forall>i<k - 1. isRoad m rt (x0 + int k * dx d + dx (opp d) + int i * dx (opp d))
                          (y0 + int k * dy d + dy (opp d) + int i * dy (opp d)) \<and>
       (fst (pass1 m rt) (idx (x0 + int k * dx d + dx (opp d) + int i * dx (opp d))
                          (y0 + int k * dy d + dy (opp d) + int i * dy (opp d)) (width m)) = None \<or>
        fst (pass1 m rt) (idx (x0 + int k * dx d + dx (opp d) + int i * dx (opp d))
                          (y0 + int k * dy d + dy (opp d) + int i * dy (opp d)) (width m)) = Some 1)"
    proof (intro allI impI)
      fix i assume i: "i < k - 1"
      then have ik: "i < k" "k - 1 - i \<le> k" "k - 1 - i \<noteq> 0" "k - 1 - i \<noteq> k" by auto
      show "isRoad m rt (x0 + int k * dx d + dx (opp d) + int i * dx (opp d))
                          (y0 + int k * dy d + dy (opp d) + int i * dy (opp d)) \<and>
       (fst (pass1 m rt) (idx (x0 + int k * dx d + dx (opp d) + int i * dx (opp d))
                          (y0 + int k * dy d + dy (opp d) + int i * dy (opp d)) (width m)) = None \<or>
        fst (pass1 m rt) (idx (x0 + int k * dx d + dx (opp d) + int i * dx (opp d))
                          (y0 + int k * dy d + dy (opp d) + int i * dy (opp d)) (width m)) = Some 1)"
        unfolding pos[OF ik(1)]
        using corridor_bounds(2)[OF c ik(2)] corridor_nid[OF c ik(2)] ik(3,4) by simp
    qed
    have kk: "k - 1 < k" using k by simp
    show "isRoad m rt (x0 + int k * dx d + dx (opp d) + int (k - 1) * dx (opp d))
                      (y0 + int k * dy d + dy (opp d) + int (k - 1) * dy (opp d))"
      unfolding pos[OF kk] using corridor_bounds(2)[OF c, of 0] by simp
    show "fst (pass1 m rt) (idx (x0 + int k * dx d + dx (opp d) + int (k - 1) * dx (opp d))
                      (y0 + int k * dy d + dy (opp d) + int (k - 1) * dy (opp d)) (width m)) = Some 0"
      unfolding pos[OF kk] using corridor_nid[OF c, of 0] by simp
  qed simp
  then show ?thesis
    using line_Cons[of "(x0 + int k * dx d, y0 + int k * dy d)" "opp d" "k - 1"] k by simp
qed

lemma corridor_dir0:
  assumes c: "corridor m rt d x0 y0 k"
  shows "pass2_dir m rt (fst (pass1 m rt)) (mkNode m 0 x0 y0) d' bs =
           (if d' = d then stepF m d x0 y0 k bs else bs)"
proof -
  have k: "1 \<le> k" using c by (simp add: corridor_def)
  have r: "isRoad m rt (x0 + dx d') (y0 + dy d') \<longleftrightarrow> d' = d"
    using corridor_step_road[OF c, of 0 d'] k by simp
  show ?thesis
  proof (cases "d' = d")
    case True
    then show ?thesis using r corridor_walk_fwd[OF c]
      by (simp add: pass2_dir_def mkNode_def stepF_def Let_def)
  next
    case False
    then show ?thesis using r by (simp add: pass2_dir_def mkNode_def Let_def)
  qed
qed

lemma corridor_dir1:
  assumes c: "corridor m rt d x0 y0 k"
  shows "pass2_dir m rt (fst (pass1 m rt)) (mkNode m 1 (x0 + int k * dx d) (y0 + int k * dy d)) d' bs =
           (if d' = opp d then stepB m d x0 y0 k bs else bs)"
proof -
  have k: "1 \<le> k" using c by (simp add: corridor_def)
  have dd: "d \<noteq> opp d" by (cases d) (simp_all add: opp_def)
  have r: "isRoad m rt (x0 + int k * dx d + dx d') (y0 + int k * dy d + dy d') \<longleftrightarrow> d' = opp d"
    using corridor_step_road[OF c, of k d'] k by simp
  show ?thesis
  proof (cases "d' = opp d")
    case True
    then show ?thesis using r corridor_walk_back[OF c]
      by (simp add: pass2_dir_def mkNode_def stepB_def Let_def)
  next
    case False
    then show ?thesis using r by (simp add: pass2_dir_def mkNode_def Let_def)
  qed
qed

lemma corridor_pass2:
  assumes c: "corridor m rt d x0 y0 k"
  shows "pass2 m rt (fst (pass1 m rt)) (snd (pass1 m rt)) =
           stepB m d x0 y0 k (stepF m d x0 y0 k (bs0 2))"
proof -
  have d: "d = DirE \<or> d = DirS" using c by (simp add: corridor_def)
  have f0: "fold (pass2_dir m rt (fst (pass1 m rt)) (mkNode m 0 x0 y0)) DIRS4 bs = stepF m d x0 y0 k bs" for bs
    using d by (elim disjE) (simp_all add: DIRS4_def corridor_dir0[OF c])
  have f1: "fold (pass2_dir m rt (fst (pass1 m rt)) (mkNode m 1 (x0 + int k * dx d) (y0 + int k * dy d))) DIRS4 bs
              = stepB m d x0 y0 k bs" for bs
    apply (simp only: DIRS4_def fold_simps corridor_dir1[OF c])
    using d by (auto simp: opp_def)
  show ?thesis
    unfolding pass2_def corridor_nodes[OF c]
    by (simp only: fold_simps f0 f1 bs0_def) (simp add: numeral_2_eq_2)
qed

lemma buildRoadGraph_fields:
  "nodes (buildRoadGraph m opt) = snd (pass1 m (case opt of Some r \<Rightarrow> r | None \<Rightarrow> 2))"
  "dirEdges (buildRoadGraph m opt) =
     bs_dirEdges (pass2 m (case opt of Some r \<Rightarrow> r | None \<Rightarrow> 2)
        (fst (pass1 m (case opt of Some r \<Rightarrow> r | None \<Rightarrow> 2)))
        (snd (pass1 m (case opt of Some r \<Rightarrow> r | None \<Rightarrow> 2))))"
  "adj (buildRoadGraph m opt) =
     bs_adj (pass2 m (case opt of Some r \<Rightarrow> r | None \<Rightarrow> 2)
        (fst (pass1 m (case opt of Some r \<Rightarrow> r | None \<Rightarrow> 2)))
        (snd (pass1 m (case opt of Some r \<Rightarrow> r | None \<Rightarrow> 2))))"
  "undirEdges (buildRoadGraph m opt) =
     map setBridgeScore (bridgePass (length (snd (pass1 m (case opt of Some r \<Rightarrow> r | None \<Rightarrow> 2))))
       (bs_undirEdges (pass2 m (case opt of Some r \<Rightarrow> r | None \<Rightarrow> 2)
        (fst (pass1 m (case opt of Some r \<Rightarrow> r | None \<Rightarrow> 2)))
        (snd (pass1 m (case opt of Some r \<Rightarrow> r | None \<Rightarrow> 2))))))"
  "roadTile (buildRoadGraph m opt) = (case opt of Some r \<Rightarrow> r | None \<Rightarrow> 2)"
  by (simp_all add: buildRoadGraph_def Let_def)

lemma segmentOk_line:
  "segmentOk m d (line d p k) \<longleftrightarrow>
     (\<forall>i. 1 \<le> i \<and> i \<le> k \<longrightarrow> tileAllowsDir m (fst p + int i * dx d) (snd p + int i * dy d) (dx d) (dy d))"
proof -
  have "set (drop 1 (line d p k)) = {(fst p + int i * dx d, snd p + int i * dy d) | i. 1 \<le> i \<and> i \<le> k}"
  proof (intro set_eqI iffI)
    fix t assume "t \<in> set (drop 1 (line d p k))"
    then obtain j where j: "j < length (line d p k) - 1" "t = line d p k ! (1 + j)"
      by (auto simp: in_set_conv_nth)
    then show "t \<in> {(fst p + int i * dx d, snd p + int i * dy d) | i. 1 \<le> i \<and> i \<le> k}"
      using line_nth[of "1 + j" k d p] by (auto intro!: exI[of _ "1 + j"])
  next
    fix t assume "t \<in> {(fst p + int i * dx d, snd p + int i * dy d) | i. 1 \<le> i \<and> i \<le> k}"
    then obtain i where i: "1 \<le> i" "i \<le> k" "t = (fst p + int i * dx d, snd p + int i * dy d)"
      by blast
    then have "t = drop 1 (line d p k) ! (i - 1)" using line_nth[of i k d p] by simp
    moreover have "i - 1 < length (drop 1 (line d p k))" using i by simp
    ultimately show "t \<in> set (drop 1 (line d p k))" by (metis nth_mem)
  qed
  then show ?thesis unfolding segmentOk_def list_all_iff by auto
qed

lemma corridor_edges_both:
  assumes c: "corridor m rt d x0 y0 k"
    and okF: "segmentOk m d (line d (x0, y0) k)"
    and okB: "segmentOk m (opp d) (line (opp d) (x0 + int k * dx d, y0 + int k * dy d) k)"
  shows "pass2 m rt (fst (pass1 m rt)) (snd (pass1 m rt)) =
           addEdge m (opp d) 1 0 (line (opp d) (x0 + int k * dx d, y0 + int k * dy d) k)
             (addEdge m d 0 1 (line d (x0, y0) k) (bs0 2))"
  unfolding corridor_pass2[OF c]
  using okF okB by (simp add: stepF_def stepB_def bs0_def addEdge_dirEdgeSet)

lemma corridor_edges_fwd_only:
  assumes c: "corridor m rt d x0 y0 k"
    and okF: "segmentOk m d (line d (x0, y0) k)"
    and okB: "\<not> segmentOk m (opp d) (line (opp d) (x0 + int k * dx d, y0 + int k * dy d) k)"
  shows "pass2 m rt (fst (pass1 m rt)) (snd (pass1 m rt)) =
           addEdge m d 0 1 (line d (x0, y0) k) (bs0 2)"
  unfolding corridor_pass2[OF c]
  using okF okB by (simp add: stepF_def stepB_def bs0_def)

subsection \<open>The bridge pass keeps everything but the flags\<close>

lemma unflag_markBridge: "map unflag (t_edges (markBridge st eId)) = map unflag (t_edges st)"
proof (cases "eId < length (t_edges st)")
  case True
  have "map unflag ((t_edges st)[eId := (t_edges st ! eId)\<lparr>u_isBridge := True\<rparr>]) =
        (map unflag (t_edges st))[eId := unflag (t_edges st ! eId)]"
    by (simp add: map_update unflag_def)
  also have "\<dots> = map unflag (t_edges st)"
    using True by (metis length_map list_update_id nth_map)
  finally show ?thesis using True by (simp add: markBridge_def)
next
  case False
  then show ?thesis by (simp add: markBridge_def)
qed

lemma unflag_afterChild: "map unflag (t_edges (afterChild st u v eId)) = map unflag (t_edges st)"
  using unflag_markBridge[of "st\<lparr>low := (low st)(u := min (low st u) (low st v))\<rparr>" eId]
  by (simp add: afterChild_def Let_def)

lemma unflag_dfs_loop:
  "map unflag (t_edges (dfs_loop N nb st u ns)) = map unflag (t_edges st)"
proof (induction N nb st u ns rule: dfs_loop.induct)
  case (1 N nb st u)
  show ?case by simp
next
  case (2 N nb st u v eId rest)
  show ?case
  proof (cases "v < N \<and> disc st v = -1")
    case True
    have "map unflag (t_edges (dfs_loop N nb st u ((v, eId) # rest))) =
          map unflag (t_edges (afterChild (dfs_loop N nb (enter (setParent st v u) v) v (nb v)) u v eId))"
      using True "2.IH"(2) by simp
    also have "\<dots> = map unflag (t_edges (enter (setParent st v u) v))"
      using True "2.IH"(1) by (simp add: unflag_afterChild)
    finally show ?thesis by (simp add: enter_def setParent_def)
  next
    case False
    then show ?thesis using "2.IH"(3,4) by (auto simp: backEdge_def)
  qed
qed

lemma unflag_computeBridges: "map unflag (computeBridges N ues nb) = map unflag ues"
proof -
  have "map unflag (t_edges (fold (\<lambda>i st. if disc st i = -1 then dfs N nb st i else st) is st0))
          = map unflag (t_edges st0)" for "is" st0
    by (induction "is" arbitrary: st0) (auto simp: dfs_def unflag_dfs_loop enter_def)
  then show ?thesis by (simp add: computeBridges_def)
qed

lemma unflag_bridgePass: "map unflag (bridgePass N ues) = map unflag ues"
  by (simp add: bridgePass_def unflag_computeBridges Let_def)

lemma unflag_fields:
  assumes "map unflag xs = map unflag ys"
  shows "length xs = length ys"
    and "i < length xs \<Longrightarrow> u_u (xs ! i) = u_u (ys ! i) \<and> u_v (xs ! i) = u_v (ys ! i) \<and>
           u_id (xs ! i) = u_id (ys ! i) \<and> u_cost (xs ! i) = u_cost (ys ! i)"
proof -
  show l: "length xs = length ys" using assms by (metis length_map)
  assume i: "i < length xs"
  then have "unflag (xs ! i) = unflag (ys ! i)" using assms l by (metis nth_map)
  then show "u_u (xs ! i) = u_u (ys ! i) \<and> u_v (xs ! i) = u_v (ys ! i) \<and>
           u_id (xs ! i) = u_id (ys ! i) \<and> u_cost (xs ! i) = u_cost (ys ! i)"
    unfolding unflag_def
    by (metis undirEdge.select_convs(1-4) undirEdge.surjective undirEdge.update_convs(5))
qed

subsection \<open>Facts about every built graph\<close>

lemma built_pass2_inv:
  "pass2_inv m (rtOf opt) (nodes (buildRoadGraph m opt))
     (pass2 m (rtOf opt) (fst (pass1 m (rtOf opt))) (snd (pass1 m (rtOf opt))))"
  unfolding buildRoadGraph_fields rtOf_def[symmetric]
  by (rule pass2_inv_pass2[OF pass1_nodes_ok])

lemma built_dedge_ok:
  assumes "e \<in> set (dirEdges (buildRoadGraph m opt))"
  shows "dedge_ok m (rtOf opt) (nodes (buildRoadGraph m opt)) e"
  using built_pass2_inv[of m opt] assms
  unfolding buildRoadGraph_fields(2) rtOf_def[symmetric] pass2_inv_def dir_inv_def by blast

lemma line_adjacent: "Suc i \<le> k \<Longrightarrow> adjacent4 (line d p k ! i) (line d p k ! Suc i)"
proof -
  assume i: "Suc i \<le> k"
  then have a: "line d p k ! i = (fst p + int i * dx d, snd p + int i * dy d)"
    and b: "line d p k ! Suc i = (fst p + (int i + 1) * dx d, snd p + (int i + 1) * dy d)"
    using line_nth[of i k d p] line_nth[of "Suc i" k d p] by (simp_all add: add.commute)
  show ?thesis unfolding a b by (cases d) (simp_all add: adjacent4_def algebra_simps)
qed

lemma line_hd_last: "hd (line d p k) = p" "last (line d p k) = line d p k ! k" "line d p k \<noteq> []"
proof -
  show "line d p k \<noteq> []" by (simp add: line_def)
  then show "hd (line d p k) = p" using line_nth[of 0 k d p] by (simp add: hd_conv_nth)
  show "last (line d p k) = line d p k ! k"
    using \<open>line d p k \<noteq> []\<close> by (simp add: last_conv_nth)
qed

lemma built_undir:
  assumes "u \<in> set (undirEdges (buildRoadGraph m opt))"
  shows "\<exists>e \<in> set (dirEdges (buildRoadGraph m opt)). u_u u = min (e_from e) (e_to e) \<and> u_v u = max (e_from e) (e_to e)"
proof -
  let ?bs = "pass2 m (rtOf opt) (fst (pass1 m (rtOf opt))) (snd (pass1 m (rtOf opt)))"
  let ?N = "length (snd (pass1 m (rtOf opt)))"
  have ue: "undirEdges (buildRoadGraph m opt) = map setBridgeScore (bridgePass ?N (bs_undirEdges ?bs))"
    unfolding buildRoadGraph_fields rtOf_def ..
  from assms obtain i where i: "i < length (bridgePass ?N (bs_undirEdges ?bs))"
      "u = setBridgeScore (bridgePass ?N (bs_undirEdges ?bs) ! i)"
    unfolding ue by (auto simp: in_set_conv_nth)
  have f: "length (bridgePass ?N (bs_undirEdges ?bs)) = length (bs_undirEdges ?bs)"
      "u_u (bridgePass ?N (bs_undirEdges ?bs) ! i) = u_u (bs_undirEdges ?bs ! i)"
      "u_v (bridgePass ?N (bs_undirEdges ?bs) ! i) = u_v (bs_undirEdges ?bs ! i)"
    using unflag_fields[OF unflag_bridgePass[of ?N "bs_undirEdges ?bs"]] i(1) by auto
  have "link_inv ?bs" using built_pass2_inv[of m opt] by (simp add: pass2_inv_def)
  then obtain e where "e \<in> set (bs_dirEdges ?bs)"
      "u_u (bs_undirEdges ?bs ! i) = min (e_from e) (e_to e)"
      "u_v (bs_undirEdges ?bs ! i) = max (e_from e) (e_to e)"
    using i(1) f(1) unfolding link_inv_def by auto
  then show ?thesis using i(2) f(2,3)
    unfolding buildRoadGraph_fields(2) rtOf_def[symmetric] by (auto simp: setBridgeScore_def)
qed

text \<open>Claim C3 (graph well-formedness). In every graph built by \<open>buildRoadGraph\<close>, the
  tiles of every directed edge are a non-empty list of road tiles in which each tile
  is 4-adjacent to the next, the first is the tile of the \<open>from\<close> node and the last
  is the tile of the \<open>to\<close> node; and the two endpoints of every undirected edge are,
  as an unordered pair, the two endpoints of some directed edge.\<close>

theorem graph_well_formed:
  "(\<forall>e \<in> set (dirEdges (buildRoadGraph m opt)).
      e_from e < length (nodes (buildRoadGraph m opt)) \<and>
      e_to e < length (nodes (buildRoadGraph m opt)) \<and>
      e_tiles e \<noteq> [] \<and>
      hd (e_tiles e) = (n_tx (nodes (buildRoadGraph m opt) ! e_from e),
                        n_ty (nodes (buildRoadGraph m opt) ! e_from e)) \<and>
      last (e_tiles e) = (n_tx (nodes (buildRoadGraph m opt) ! e_to e),
                          n_ty (nodes (buildRoadGraph m opt) ! e_to e)) \<and>
      (\<forall>t \<in> set (e_tiles e). isRoad m (roadTile (buildRoadGraph m opt)) (fst t) (snd t)) \<and>
      (\<forall>i. Suc i < length (e_tiles e) \<longrightarrow> adjacent4 (e_tiles e ! i) (e_tiles e ! Suc i))) \<and>
   (\<forall>u \<in> set (undirEdges (buildRoadGraph m opt)).
      \<exists>e \<in> set (dirEdges (buildRoadGraph m opt)). {u_u u, u_v u} = {e_from e, e_to e})"
proof -
  let ?ns = "nodes (buildRoadGraph m opt)"
  have part1: "e_from e < length ?ns \<and> e_to e < length ?ns \<and> e_tiles e \<noteq> [] \<and>
      hd (e_tiles e) = (n_tx (?ns ! e_from e), n_ty (?ns ! e_from e)) \<and>
      last (e_tiles e) = (n_tx (?ns ! e_to e), n_ty (?ns ! e_to e)) \<and>
      (\<forall>t \<in> set (e_tiles e). isRoad m (roadTile (buildRoadGraph m opt)) (fst t) (snd t)) \<and>
      (\<forall>i. Suc i < length (e_tiles e) \<longrightarrow> adjacent4 (e_tiles e ! i) (e_tiles e ! Suc i))"
    if e: "e \<in> set (dirEdges (buildRoadGraph m opt))" for e
  proof -
    from built_dedge_ok[OF e] obtain d k where dk:
      "1 \<le> k" "e_from e < length ?ns" "e_to e < length ?ns"
      "e_tiles e = line d (tileOf (?ns ! e_from e)) k"
      "tileOf (?ns ! e_to e) = line d (tileOf (?ns ! e_from e)) k ! k"
      "\<forall>t \<in> set (e_tiles e). isRoad m (rtOf opt) (fst t) (snd t)"
      unfolding dedge_ok_def by blast
    have 3: "e_tiles e \<noteq> []" unfolding dk(4) by (rule line_hd_last)
    have 4: "hd (e_tiles e) = (n_tx (?ns ! e_from e), n_ty (?ns ! e_from e))"
      unfolding dk(4) line_hd_last by (simp add: tileOf_def)
    have 5: "last (e_tiles e) = (n_tx (?ns ! e_to e), n_ty (?ns ! e_to e))"
      unfolding dk(4) line_hd_last using dk(5) by (simp add: tileOf_def)
    have 6: "\<forall>t \<in> set (e_tiles e). isRoad m (roadTile (buildRoadGraph m opt)) (fst t) (snd t)"
      using dk(6) by (simp add: buildRoadGraph_fields rtOf_def)
    have 7: "\<forall>i. Suc i < length (e_tiles e) \<longrightarrow> adjacent4 (e_tiles e ! i) (e_tiles e ! Suc i)"
      unfolding dk(4) by (simp add: line_adjacent)
    show ?thesis using dk(2,3) 3 4 5 6 7 by blast
  qed
  have part2: "\<exists>e \<in> set (dirEdges (buildRoadGraph m opt)). {u_u u, u_v u} = {e_from e, e_to e}"
    if "u \<in> set (undirEdges (buildRoadGraph m opt))" for u
  proof -
    from built_undir[OF that] obtain e where e: "e \<in> set (dirEdges (buildRoadGraph m opt))"
      "u_u u = min (e_from e) (e_to e)" "u_v u = max (e_from e) (e_to e)" by blast
    have "{u_u u, u_v u} = {e_from e, e_to e}" unfolding e(2,3) by (auto simp: min_def max_def)
    then show ?thesis using e(1) by blast
  qed
  show ?thesis using part1 part2 by blast
qed

text \<open>Claim C4 (one-way gating), amended: the loop that checks a walked segment starts
  at index 1, so the tile of the node the walk leaves is not checked. In every built
  graph, every tile of a directed edge other than its first tile permits travel in the
  direction of the edge; hence, when a tile of a directed edge other than its first
  tile carries a one-way code, the edge runs in the direction that the code allows
  (1 east, 2 west, 3 south, 4 north): no directed edge has such a tile among its tiles
  after the first and runs in another direction.\<close>

theorem one_way_gating:
  "\<forall>e \<in> set (dirEdges (buildRoadGraph m opt)). \<forall>t \<in> set (drop 1 (e_tiles e)).
     tileAllowsDir m (fst t) (snd t) (e_dirX e) (e_dirY e) \<and>
     (toInt32 (oneWayOf m (fst t) (snd t)) = 1 \<longrightarrow> e_dirX e = 1 \<and> e_dirY e = 0) \<and>
     (toInt32 (oneWayOf m (fst t) (snd t)) = 2 \<longrightarrow> e_dirX e = -1 \<and> e_dirY e = 0) \<and>
     (toInt32 (oneWayOf m (fst t) (snd t)) = 3 \<longrightarrow> e_dirX e = 0 \<and> e_dirY e = 1) \<and>
     (toInt32 (oneWayOf m (fst t) (snd t)) = 4 \<longrightarrow> e_dirX e = 0 \<and> e_dirY e = -1)"
proof (intro ballI)
  fix e t assume e: "e \<in> set (dirEdges (buildRoadGraph m opt))" and t: "t \<in> set (drop 1 (e_tiles e))"
  from built_dedge_ok[OF e] obtain d where d: "e_dirX e = dx d" "e_dirY e = dy d"
    "segmentOk m d (e_tiles e)"
    unfolding dedge_ok_def by blast
  have a: "tileAllowsDir m (fst t) (snd t) (e_dirX e) (e_dirY e)"
    using d t unfolding segmentOk_def list_all_iff by simp
  then show "tileAllowsDir m (fst t) (snd t) (e_dirX e) (e_dirY e) \<and>
     (toInt32 (oneWayOf m (fst t) (snd t)) = 1 \<longrightarrow> e_dirX e = 1 \<and> e_dirY e = 0) \<and>
     (toInt32 (oneWayOf m (fst t) (snd t)) = 2 \<longrightarrow> e_dirX e = -1 \<and> e_dirY e = 0) \<and>
     (toInt32 (oneWayOf m (fst t) (snd t)) = 3 \<longrightarrow> e_dirX e = 0 \<and> e_dirY e = 1) \<and>
     (toInt32 (oneWayOf m (fst t) (snd t)) = 4 \<longrightarrow> e_dirX e = 0 \<and> e_dirY e = -1)"
    by (auto simp: tileAllowsDir_def Let_def)
qed

text \<open>Claim C8 (bridge pass skipped). When a built graph has more than 1600 nodes, the
  construction still returns a graph (\<open>buildRoadGraph\<close> is a total function and has no
  error value), and every undirected edge of it has \<open>isBridge = false\<close> and
  \<open>bridgeScore = 0\<close>.\<close>

theorem bridge_pass_skipped:
  assumes "1600 < length (nodes (buildRoadGraph m opt))"
  shows "\<forall>u \<in> set (undirEdges (buildRoadGraph m opt)). \<not> u_isBridge u \<and> u_bridgeScore u = 0"
proof
  fix u assume u: "u \<in> set (undirEdges (buildRoadGraph m opt))"
  let ?bs = "pass2 m (rtOf opt) (fst (pass1 m (rtOf opt))) (snd (pass1 m (rtOf opt)))"
  have skip: "bridgePass (length (snd (pass1 m (rtOf opt)))) (bs_undirEdges ?bs) = bs_undirEdges ?bs"
    using assms by (simp add: bridgePass_def BRIDGE_SAFE_N_def buildRoadGraph_fields rtOf_def)
  have "undir_inv ?bs" using built_pass2_inv[of m opt] by (simp add: pass2_inv_def)
  then have "\<forall>e \<in> set (bs_undirEdges ?bs). \<not> u_isBridge e"
    unfolding undir_inv_def by (auto simp: in_set_conv_nth)
  moreover have "u \<in> setBridgeScore ` set (bs_undirEdges ?bs)"
    using u skip unfolding buildRoadGraph_fields rtOf_def[symmetric] by simp
  ultimately show "\<not> u_isBridge u \<and> u_bridgeScore u = 0"
    by (auto simp: setBridgeScore_def)
qed

lemma toInt32_small [simp]: "toInt32 0 = 0" "toInt32 1 = 1" "toInt32 2 = 2"
  by (simp_all add: toInt32_def)

lemma strip_is_corridor:
  assumes "width m = 10" "height m = 1" "\<forall>x y. tileAt m x y = 2"
  shows "corridor m 2 DirE 0 0 9"
proof -
  have "isRoad m 2 x y \<longleftrightarrow> (\<exists>i \<le> 9. x = 0 + int i * dx DirE \<and> y = 0 + int i * dy DirE)" for x y
  proof -
    have "(\<exists>i \<le> 9. x = int i) \<longleftrightarrow> 0 \<le> x \<and> x \<le> int 9" by (rule ex_le_int)
    then show ?thesis using assms by (auto simp: isRoad_def inBounds_def)
  qed
  then show ?thesis unfolding corridor_def by simp
qed

lemma corridor_dirEdges_both:
  assumes c: "corridor m rt d x0 y0 k"
    and okF: "segmentOk m d (line d (x0, y0) k)"
    and okB: "segmentOk m (opp d) (line (opp d) (x0 + int k * dx d, y0 + int k * dy d) k)"
  shows "dirEdges (buildRoadGraph m (Some rt)) =
     [\<lparr>e_id = 0, e_from = 0, e_to = 1, e_tiles = line d (x0, y0) k, e_cost = real k,
       e_dirX = dx d, e_dirY = dy d, e_lanes = segmentLaneCount m (line d (x0, y0) k),
       e_undirectedId = 0\<rparr>,
      \<lparr>e_id = 1, e_from = 1, e_to = 0,
       e_tiles = line (opp d) (x0 + int k * dx d, y0 + int k * dy d) k, e_cost = real k,
       e_dirX = dx (opp d), e_dirY = dy (opp d),
       e_lanes = segmentLaneCount m (line (opp d) (x0 + int k * dx d, y0 + int k * dy d) k),
       e_undirectedId = 0\<rparr>]"
proof -
  have k: "1 \<le> k" using c by (simp add: corridor_def)
  show ?thesis
    using k unfolding buildRoadGraph_fields option.case corridor_edges_both[OF c okF okB]
    by (simp add: addEdge_dirEdges newEdge_def uidOf_def bs0_def addEdge_undirMap max_def)
qed

lemma corridor_undirEdges_both:
  assumes c: "corridor m rt d x0 y0 k"
    and okF: "segmentOk m d (line d (x0, y0) k)"
    and okB: "segmentOk m (opp d) (line (opp d) (x0 + int k * dx d, y0 + int k * dy d) k)"
  shows "bs_undirEdges (pass2 m rt (fst (pass1 m rt)) (snd (pass1 m rt))) =
     [\<lparr>u_id = 0, u_u = 0, u_v = 1, u_cost = real k, u_isBridge = False, u_bridgeScore = 0,
       u_dirEdgeIds = [0, 1]\<rparr>]"
proof -
  have k: "1 \<le> k" using c by (simp add: corridor_def)
  show ?thesis
    using k unfolding corridor_edges_both[OF c okF okB]
    by (simp add: addEdge_def bs0_def Let_def max_def)
qed

lemma corridor_adj_both:
  assumes c: "corridor m rt d x0 y0 k"
    and okF: "segmentOk m d (line d (x0, y0) k)"
    and okB: "segmentOk m (opp d) (line (opp d) (x0 + int k * dx d, y0 + int k * dy d) k)"
  shows "adj (buildRoadGraph m (Some rt)) =
     [[\<lparr>a_to = 1, a_edge = 0, a_cost = real k, a_dirX = dx d, a_dirY = dy d,
        a_lanes = segmentLaneCount m (line d (x0, y0) k), a_undirectedId = 0\<rparr>],
      [\<lparr>a_to = 0, a_edge = 1, a_cost = real k, a_dirX = dx (opp d), a_dirY = dy (opp d),
        a_lanes = segmentLaneCount m (line (opp d) (x0 + int k * dx d, y0 + int k * dy d) k),
        a_undirectedId = 0\<rparr>]]"
proof -
  have k: "1 \<le> k" using c by (simp add: corridor_def)
  show ?thesis
    using k unfolding buildRoadGraph_fields option.case corridor_edges_both[OF c okF okB]
    by (simp add: addEdge_def bs0_def Let_def max_def numeral_2_eq_2)
qed

lemma corridor_dirEdges_fwd_only:
  assumes c: "corridor m rt d x0 y0 k"
    and okF: "segmentOk m d (line d (x0, y0) k)"
    and okB: "\<not> segmentOk m (opp d) (line (opp d) (x0 + int k * dx d, y0 + int k * dy d) k)"
  shows "length (dirEdges (buildRoadGraph m (Some rt))) = 1"
  unfolding buildRoadGraph_fields option.case corridor_edges_fwd_only[OF c okF okB]
  by (simp add: addEdge_dirEdges bs0_def)

lemma buildRoadGraph_default: "buildRoadGraph m None = buildRoadGraph m (Some 2)"
  by (simp add: buildRoadGraph_def)

text \<open>Claim C6 (simple corridor), amended by the hypothesis on one-way codes. When the
  road tiles of a map are exactly the ten tiles of one straight strip, running east
  or south from \<open>(x0, y0)\<close>, and every tile of the strip permits travel in both
  directions along it, \<open>buildRoadGraph\<close> produces exactly two nodes, the two end tiles
  of the strip, and exactly two directed edges, one from each end to the other, each
  of cost 9.\<close>

theorem corridor_two_nodes_two_edges:
  assumes d: "d = DirE \<or> d = DirS"
    and road: "\<forall>x y. isRoad m rt x y \<longleftrightarrow> (\<exists>i \<le> 9. x = x0 + int i * dx d \<and> y = y0 + int i * dy d)"
    and ow: "\<forall>i \<le> 9. tileAllowsDir m (x0 + int i * dx d) (y0 + int i * dy d) (dx d) (dy d) \<and>
                     tileAllowsDir m (x0 + int i * dx d) (y0 + int i * dy d) (- dx d) (- dy d)"
  shows "length (nodes (buildRoadGraph m (Some rt))) = 2 \<and>
         n_tx (nodes (buildRoadGraph m (Some rt)) ! 0) = x0 \<and>
         n_ty (nodes (buildRoadGraph m (Some rt)) ! 0) = y0 \<and>
         n_tx (nodes (buildRoadGraph m (Some rt)) ! 1) = x0 + 9 * dx d \<and>
         n_ty (nodes (buildRoadGraph m (Some rt)) ! 1) = y0 + 9 * dy d \<and>
         length (dirEdges (buildRoadGraph m (Some rt))) = 2 \<and>
         e_from (dirEdges (buildRoadGraph m (Some rt)) ! 0) = 0 \<and>
         e_to (dirEdges (buildRoadGraph m (Some rt)) ! 0) = 1 \<and>
         e_cost (dirEdges (buildRoadGraph m (Some rt)) ! 0) = 9 \<and>
         e_from (dirEdges (buildRoadGraph m (Some rt)) ! 1) = 1 \<and>
         e_to (dirEdges (buildRoadGraph m (Some rt)) ! 1) = 0 \<and>
         e_cost (dirEdges (buildRoadGraph m (Some rt)) ! 1) = 9"
proof -
  have c: "corridor m rt d x0 y0 9" unfolding corridor_def using d road by simp
  have okF: "segmentOk m d (line d (x0, y0) 9)"
    unfolding segmentOk_line using ow by simp
  have okB: "segmentOk m (opp d) (line (opp d) (x0 + int 9 * dx d, y0 + int 9 * dy d) 9)"
    unfolding segmentOk_line
  proof (intro allI impI)
    fix i :: nat assume i: "1 \<le> i \<and> i \<le> 9"
    then have "9 - i \<le> 9" by simp
    from ow[rule_format, OF this]
    have "tileAllowsDir m (x0 + int (9 - i) * dx d) (y0 + int (9 - i) * dy d) (- dx d) (- dy d)"
      by simp
    moreover have "x0 + int (9 - i) * dx d = x0 + int 9 * dx d + int i * dx (opp d)"
          "y0 + int (9 - i) * dy d = y0 + int 9 * dy d + int i * dy (opp d)"
      using i by (simp_all add: opp_dx of_nat_diff algebra_simps)
    ultimately show "tileAllowsDir m (fst (x0 + int 9 * dx d, y0 + int 9 * dy d) + int i * dx (opp d))
            (snd (x0 + int 9 * dx d, y0 + int 9 * dy d) + int i * dy (opp d)) (dx (opp d)) (dy (opp d))"
      by (simp add: opp_dx)
  qed
  have n: "nodes (buildRoadGraph m (Some rt)) =
             [mkNode m 0 x0 y0, mkNode m 1 (x0 + int 9 * dx d) (y0 + int 9 * dy d)]"
    unfolding buildRoadGraph_fields option.case by (rule corridor_nodes[OF c])
  show ?thesis
    unfolding n corridor_dirEdges_both[OF c okF okB] by (simp add: mkNode_def)
qed

lemma strip10_sel:
  "width strip10 = 10" "height strip10 = 1" "tileAt strip10 x y = 2" "oneWayAt strip10 = None"
  "width strip10_east = 10" "height strip10_east = 1" "tileAt strip10_east x y = 2"
  "oneWayAt strip10_east = Some (\<lambda>x y. 1)"
  "width strip10_west0 = 10" "height strip10_west0 = 1" "tileAt strip10_west0 x y = 2"
  "oneWayAt strip10_west0 = Some (\<lambda>x y. if x = 0 then 2 else 0)"
  by (simp_all add: strip10_def strip10_east_def strip10_west0_def)

lemma strip10_corridor:
  "corridor strip10 2 DirE 0 0 9" "corridor strip10_east 2 DirE 0 0 9"
  "corridor strip10_west0 2 DirE 0 0 9"
  by (rule strip_is_corridor; simp add: strip10_sel)+

lemma strip10_allows: "tileAllowsDir strip10 x y a b"
  by (simp add: tileAllowsDir_def oneWayOf_def strip10_sel)

lemma strip10_east_allows: "tileAllowsDir strip10_east x y a b \<longleftrightarrow> a = 1 \<and> b = 0"
  by (simp add: tileAllowsDir_def oneWayOf_def strip10_sel)

lemma strip10_west0_allows:
  "tileAllowsDir strip10_west0 x y a b \<longleftrightarrow> x \<noteq> 0 \<or> (a = -1 \<and> b = 0)"
  by (simp add: tileAllowsDir_def oneWayOf_def strip10_sel)

theorem corridor_two_nodes_two_edges_witness:
  "length (nodes (buildRoadGraph strip10 (Some 2))) = 2 \<and>
   n_tx (nodes (buildRoadGraph strip10 (Some 2)) ! 1) = 9 \<and>
   length (dirEdges (buildRoadGraph strip10 (Some 2))) = 2 \<and>
   e_cost (dirEdges (buildRoadGraph strip10 (Some 2)) ! 0) = 9 \<and>
   e_cost (dirEdges (buildRoadGraph strip10 (Some 2)) ! 1) = 9"
proof -
  have road: "\<forall>x y. isRoad strip10 2 x y \<longleftrightarrow> (\<exists>i \<le> 9. x = 0 + int i * dx DirE \<and> y = 0 + int i * dy DirE)"
    using strip10_corridor(1) unfolding corridor_def by blast
  have ow: "\<forall>i \<le> 9. tileAllowsDir strip10 (0 + int i * dx DirE) (0 + int i * dy DirE) (dx DirE) (dy DirE) \<and>
                     tileAllowsDir strip10 (0 + int i * dx DirE) (0 + int i * dy DirE) (- dx DirE) (- dy DirE)"
    by (simp add: strip10_allows)
  show ?thesis
    using corridor_two_nodes_two_edges[OF _ road ow] by simp
qed

text \<open>Claim C6 as stated fails on a strip of one-way tiles: on the 10x1 strip whose tiles
  all carry the code 1 (east only) the graph has its two nodes and one directed edge
  only.\<close>

theorem corridor_one_way_single_edge:
  "width strip10_east = 10 \<and> height strip10_east = 1 \<and>
   length (nodes (buildRoadGraph strip10_east None)) = 2 \<and>
   length (dirEdges (buildRoadGraph strip10_east None)) = 1"
proof -
  have okF: "segmentOk strip10_east DirE (line DirE (0, 0) 9)"
    unfolding segmentOk_line by (simp add: strip10_east_allows)
  have okB: "\<not> segmentOk strip10_east (opp DirE) (line (opp DirE) (0 + int 9 * dx DirE, 0 + int 9 * dy DirE) 9)"
    unfolding segmentOk_line by (auto simp: strip10_east_allows opp_def intro!: exI[of _ 1])
  have "length (nodes (buildRoadGraph strip10_east (Some 2))) = 2"
    unfolding buildRoadGraph_fields option.case corridor_nodes[OF strip10_corridor(2)] by simp
  then show ?thesis
    using corridor_dirEdges_fwd_only[OF strip10_corridor(2) okF okB]
    by (simp add: buildRoadGraph_default strip10_sel)
qed

text \<open>Claim C4 as stated fails on the first tile of a walk: on the 10x1 strip whose west
  end tile carries the code 2 (west only), the edge that leaves this tile eastwards
  is created, although the tile does not permit travel east.\<close>

lemma strip10_west0_edges:
  "dirEdges (buildRoadGraph strip10_west0 None) =
     [\<lparr>e_id = 0, e_from = 0, e_to = 1, e_tiles = line DirE (0, 0) 9, e_cost = 9,
       e_dirX = 1, e_dirY = 0, e_lanes = segmentLaneCount strip10_west0 (line DirE (0, 0) 9),
       e_undirectedId = 0\<rparr>,
      \<lparr>e_id = 1, e_from = 1, e_to = 0, e_tiles = line DirW (9, 0) 9, e_cost = 9,
       e_dirX = -1, e_dirY = 0, e_lanes = segmentLaneCount strip10_west0 (line DirW (9, 0) 9),
       e_undirectedId = 0\<rparr>]"
proof -
  have okF: "segmentOk strip10_west0 DirE (line DirE (0, 0) 9)"
    unfolding segmentOk_line by (auto simp: strip10_west0_allows)
  have okB: "segmentOk strip10_west0 (opp DirE) (line (opp DirE) (0 + int 9 * dx DirE, 0 + int 9 * dy DirE) 9)"
    unfolding segmentOk_line by (auto simp: strip10_west0_allows opp_def)
  show ?thesis
    using corridor_dirEdges_both[OF strip10_corridor(3) okF okB]
    by (simp add: buildRoadGraph_default opp_def)
qed

theorem one_way_start_tile_not_checked:
  "e_tiles (dirEdges (buildRoadGraph strip10_west0 None) ! 0) ! 0 = (0, 0) \<and>
   e_dirX (dirEdges (buildRoadGraph strip10_west0 None) ! 0) = 1 \<and>
   e_dirY (dirEdges (buildRoadGraph strip10_west0 None) ! 0) = 0 \<and>
   oneWayOf strip10_west0 0 0 = 2 \<and>
   \<not> tileAllowsDir strip10_west0 0 0 1 0"
  unfolding strip10_west0_edges
  by (simp add: line_nth strip10_west0_allows oneWayOf_def strip10_sel)

theorem one_way_gating_witness:
  "dirEdges (buildRoadGraph strip10_east None) \<noteq> [] \<and>
   (1, 0) \<in> set (drop 1 (e_tiles (dirEdges (buildRoadGraph strip10_east None) ! 0))) \<and>
   toInt32 (oneWayOf strip10_east 1 0) = 1 \<and>
   e_dirX (dirEdges (buildRoadGraph strip10_east None) ! 0) = 1 \<and>
   e_dirY (dirEdges (buildRoadGraph strip10_east None) ! 0) = 0"
proof -
  let ?G = "buildRoadGraph strip10_east None"
  have okF: "segmentOk strip10_east DirE (line DirE (0, 0) 9)"
    unfolding segmentOk_line by (simp add: strip10_east_allows)
  have okB: "\<not> segmentOk strip10_east (opp DirE) (line (opp DirE) (0 + int 9 * dx DirE, 0 + int 9 * dy DirE) 9)"
    unfolding segmentOk_line by (auto simp: strip10_east_allows opp_def intro!: exI[of _ 1])
  have ed: "dirEdges ?G = bs_dirEdges (addEdge strip10_east DirE 0 1 (line DirE (0, 0) 9) (bs0 2))"
    unfolding buildRoadGraph_default buildRoadGraph_fields option.case
      corridor_edges_fwd_only[OF strip10_corridor(2) okF okB] ..
  have ne: "dirEdges ?G \<noteq> []" and t: "e_tiles (dirEdges ?G ! 0) = line DirE (0, 0) 9"
    unfolding ed by (simp_all add: addEdge_dirEdges bs0_def newEdge_def)
  have "line DirE (0, 0) 9 ! 1 = (1, 0)" by (simp add: line_nth)
  then have "(1, 0) = drop 1 (line DirE (0, 0) 9) ! 0" by simp
  then have mem: "(1, 0) \<in> set (drop 1 (e_tiles (dirEdges ?G ! 0)))"
    unfolding t by (metis length_drop line_length nth_mem diff_Suc_1 zero_less_numeral One_nat_def)
  have e: "dirEdges ?G ! 0 \<in> set (dirEdges ?G)" using ne by simp
  have c: "toInt32 (oneWayOf strip10_east 1 0) = 1" by (simp add: oneWayOf_def strip10_sel)
  show ?thesis
    using one_way_gating[of strip10_east None, rule_format, OF e mem] ne mem c by simp
qed

subsection \<open>The two-way strip\<close>

lemma strip10_ok:
  "segmentOk strip10 DirE (line DirE (0, 0) 9)"
  "segmentOk strip10 (opp DirE) (line (opp DirE) (0 + int 9 * dx DirE, 0 + int 9 * dy DirE) 9)"
  unfolding segmentOk_line by (simp_all add: strip10_allows)

lemma strip10_lanes: "segmentLaneCount strip10 (line d p k) = 2"
proof -
  have a: "fold (\<lambda>t acc. let lc = toInt32 (laneCountOf strip10 (fst t) (snd t))
                       in if lc > acc then lc else acc) ts 2 = 2" for ts
    by (induction ts) (simp_all add: laneCountOf_def strip10_def)
  obtain t ts where "line d p k = t # ts" using line_hd_last(3)[of d p k] by (cases "line d p k") auto
  then show ?thesis using a[of ts] by (simp add: segmentLaneCount_def laneCountOf_def strip10_def)
qed

lemma strip10_nodes:
  "nodes (buildRoadGraph strip10 (Some 2)) = [mkNode strip10 0 0 0, mkNode strip10 1 9 0]"
  unfolding buildRoadGraph_fields option.case
  using corridor_nodes[OF strip10_corridor(1)] by simp

lemma strip10_dirEdges:
  "dirEdges (buildRoadGraph strip10 (Some 2)) =
     [\<lparr>e_id = 0, e_from = 0, e_to = 1, e_tiles = line DirE (0, 0) 9, e_cost = 9,
       e_dirX = 1, e_dirY = 0, e_lanes = 2, e_undirectedId = 0\<rparr>,
      \<lparr>e_id = 1, e_from = 1, e_to = 0, e_tiles = line DirW (9, 0) 9, e_cost = 9,
       e_dirX = -1, e_dirY = 0, e_lanes = 2, e_undirectedId = 0\<rparr>]"
  using corridor_dirEdges_both[OF strip10_corridor(1) strip10_ok]
  by (simp add: opp_def strip10_lanes)

lemma strip10_adj:
  "adj (buildRoadGraph strip10 (Some 2)) =
     [[\<lparr>a_to = 1, a_edge = 0, a_cost = 9, a_dirX = 1, a_dirY = 0, a_lanes = 2,
        a_undirectedId = 0\<rparr>],
      [\<lparr>a_to = 0, a_edge = 1, a_cost = 9, a_dirX = -1, a_dirY = 0, a_lanes = 2,
        a_undirectedId = 0\<rparr>]]"
  using corridor_adj_both[OF strip10_corridor(1) strip10_ok]
  by (simp add: opp_def strip10_lanes)

lemma strip10_undir_pre:
  "bs_undirEdges (pass2 strip10 2 (fst (pass1 strip10 2)) (snd (pass1 strip10 2))) =
     [\<lparr>u_id = 0, u_u = 0, u_v = 1, u_cost = 9, u_isBridge = False, u_bridgeScore = 0,
       u_dirEdgeIds = [0, 1]\<rparr>]"
  using corridor_undirEdges_both[OF strip10_corridor(1) strip10_ok] by simp

lemma bridgePass_length: "length (bridgePass N ues) = length ues"
  by (rule unflag_fields(1)[OF unflag_bridgePass])

lemma strip10_undir_length: "length (undirEdges (buildRoadGraph strip10 (Some 2))) = 1"
  by (simp add: buildRoadGraph_fields bridgePass_length strip10_undir_pre)

text \<open>On the two-way 10x1 strip the two directed edges and the undirected edge are as
  claim C3 says.\<close>

theorem graph_well_formed_witness:
  "dirEdges (buildRoadGraph strip10 (Some 2)) \<noteq> [] \<and>
   undirEdges (buildRoadGraph strip10 (Some 2)) \<noteq> [] \<and>
   hd (e_tiles (dirEdges (buildRoadGraph strip10 (Some 2)) ! 0)) = (0, 0) \<and>
   last (e_tiles (dirEdges (buildRoadGraph strip10 (Some 2)) ! 0)) = (9, 0) \<and>
   adjacent4 (e_tiles (dirEdges (buildRoadGraph strip10 (Some 2)) ! 0) ! 0)
             (e_tiles (dirEdges (buildRoadGraph strip10 (Some 2)) ! 0) ! 1) \<and>
   (\<exists>e \<in> set (dirEdges (buildRoadGraph strip10 (Some 2))).
      {u_u (undirEdges (buildRoadGraph strip10 (Some 2)) ! 0),
       u_v (undirEdges (buildRoadGraph strip10 (Some 2)) ! 0)} = {e_from e, e_to e})"
proof -
  let ?G = "buildRoadGraph strip10 (Some 2)"
  have ne: "dirEdges ?G \<noteq> []" by (simp add: strip10_dirEdges)
  have une: "undirEdges ?G \<noteq> []" using strip10_undir_length by auto
  have e: "dirEdges ?G ! 0 \<in> set (dirEdges ?G)" using ne by simp
  have u: "undirEdges ?G ! 0 \<in> set (undirEdges ?G)" using une by simp
  have ft: "e_from (dirEdges ?G ! 0) = 0" "e_to (dirEdges ?G ! 0) = 1"
    "length (e_tiles (dirEdges ?G ! 0)) = 10"
    by (simp_all add: strip10_dirEdges)
  have n: "n_tx (nodes ?G ! 0) = 0" "n_ty (nodes ?G ! 0) = 0"
          "n_tx (nodes ?G ! 1) = 9" "n_ty (nodes ?G ! 1) = 0"
    by (simp_all add: strip10_nodes mkNode_def)
  from graph_well_formed[of strip10 "Some 2"]
  have a: "hd (e_tiles (dirEdges ?G ! 0)) = (n_tx (nodes ?G ! e_from (dirEdges ?G ! 0)),
                                             n_ty (nodes ?G ! e_from (dirEdges ?G ! 0)))"
    and b: "last (e_tiles (dirEdges ?G ! 0)) = (n_tx (nodes ?G ! e_to (dirEdges ?G ! 0)),
                                               n_ty (nodes ?G ! e_to (dirEdges ?G ! 0)))"
    and c: "\<forall>i. Suc i < length (e_tiles (dirEdges ?G ! 0)) \<longrightarrow>
               adjacent4 (e_tiles (dirEdges ?G ! 0) ! i) (e_tiles (dirEdges ?G ! 0) ! Suc i)"
    and d: "\<exists>e \<in> set (dirEdges ?G). {u_u (undirEdges ?G ! 0), u_v (undirEdges ?G ! 0)} = {e_from e, e_to e}"
    using e u by blast+
  have c': "adjacent4 (e_tiles (dirEdges ?G ! 0) ! 0) (e_tiles (dirEdges ?G ! 0) ! 1)"
    using c[rule_format, of 0] ft(3) by simp
  show ?thesis using ne une a b c' d unfolding ft n by simp
qed

subsection \<open>A map above the bridge threshold\<close>

lemma grid2_sel: "width grid2 = 801" "height grid2 = 2" "tileAt grid2 x y = 2"
  "oneWayAt grid2 = None"
  by (simp_all add: grid2_def)

lemma grid2_road: "isRoad grid2 2 x y \<longleftrightarrow> 0 \<le> x \<and> x < 801 \<and> 0 \<le> y \<and> y < 2"
  by (auto simp: isRoad_def inBounds_def grid2_sel)

lemma grid2_all_nodes:
  assumes "t \<in> set (tileList grid2)"
  shows "nodeTileP grid2 2 t"
proof -
  obtain ty tx where t: "t = (ty, tx)" by (cases t)
  have b: "ty < 2" "tx < 801" using assms by (auto simp: t tileList_def grid2_sel)
  have y: "ty = 0 \<or> ty = 1" using b by auto
  have "isNodeTile grid2 2 (int tx) (int ty)"
    using y b(2)
    by (elim disjE) (auto simp: isNodeTile_def openDirs_def DIRS4_def grid2_road isOpposite_def Let_def)
  then show ?thesis using b by (simp add: nodeTileP_def t grid2_road)
qed

lemma grid2_tiles: "map tileOf (snd (pass1 grid2 2)) = map (\<lambda>t. (int (snd t), int (fst t))) (tileList grid2)"
proof -
  have "filter (nodeTileP grid2 2) (tileList grid2) = tileList grid2"
    using grid2_all_nodes by (simp add: filter_id_conv)
  then show ?thesis using pass1_inv[of grid2 2] by (simp add: pass1_inv_def)
qed

lemma grid2_node_count: "length (nodes (buildRoadGraph grid2 None)) = 1602"
proof -
  have "length (map tileOf (snd (pass1 grid2 2))) = length (tileList grid2)"
    by (simp only: grid2_tiles length_map)
  then show ?thesis by (simp add: buildRoadGraph_fields tileList_def grid2_sel)
qed

lemma pass2_dir_mono:
  "length (bs_dirEdges bs) \<le> length (bs_dirEdges (pass2_dir m rt nid n d bs))"
  by (auto simp: pass2_dir_def Let_def addEdge_dirEdges split: option.splits)

lemma pass2_dirs_mono:
  "length (bs_dirEdges bs) \<le> length (bs_dirEdges (fold (pass2_dir m rt nid n) ds bs))"
proof (induction ds arbitrary: bs)
  case (Cons d ds)
  show ?case using Cons[of "pass2_dir m rt nid n d bs"] pass2_dir_mono[of bs m rt nid n d]
    by simp
qed simp

lemma pass2_nodes_mono:
  "length (bs_dirEdges bs) \<le>
   length (bs_dirEdges (fold (\<lambda>n bs. fold (pass2_dir m rt nid n) DIRS4 bs) ns bs))"
proof (induction ns arbitrary: bs)
  case (Cons n ns)
  show ?case using Cons[of "fold (pass2_dir m rt nid n) DIRS4 bs"]
      pass2_dirs_mono[of bs m rt nid n DIRS4] by simp
qed simp

lemma grid2_has_edge: "undirEdges (buildRoadGraph grid2 None) \<noteq> []"
proof -
  let ?nid = "fst (pass1 grid2 2)" and ?ns = "snd (pass1 grid2 2)"
  have len: "length ?ns = 1602" using grid2_node_count by (simp add: buildRoadGraph_fields)
  have tl: "tileList grid2 ! 0 = (0, 0)" "tileList grid2 ! 1 = (0, 1)"
    by (simp_all add: tileList_def grid2_sel product_nth)
  have tll: "length (tileList grid2) = 1602" by (simp add: tileList_def grid2_sel)
  have t0: "tileOf (?ns ! 0) = (0, 0)"
    using arg_cong[OF grid2_tiles, of "\<lambda>l. l ! 0"] len tll tl by simp
  have t1: "tileOf (?ns ! 1) = (1, 0)"
    using arg_cong[OF grid2_tiles, of "\<lambda>l. l ! 1"] len tll tl by simp
  have ok: "nodes_ok grid2 2 ?nid ?ns" by (rule pass1_nodes_ok)
  have id0: "n_id (?ns ! 0) = 0" using ok len by (simp add: nodes_ok_def)
  have nid1: "?nid (idx 1 0 (width grid2)) = Some 1"
    using ok t1 len unfolding nodes_ok_def by (auto simp: tileOf_def)
  have w: "walk grid2 2 ?nid 0 DirE 1 0 [(0, 0)] = Some (1, [(0, 0), (1, 0)])"
    using nid1 by (subst walk.simps) (simp add: grid2_road Let_def)
  have allow: "segmentOk grid2 DirE [(0, 0), (1, 0)]"
    by (simp add: segmentOk_def tileAllowsDir_def oneWayOf_def grid2_sel)
  let ?b0 = "\<lparr>bs_dirEdges = [], bs_undirEdges = [], bs_adj = replicate (length ?ns) [],
        bs_dirEdgeSet = {}, bs_undirMap = Map.empty\<rparr>"
  have first: "length (bs_dirEdges (pass2_dir grid2 2 ?nid (?ns ! 0) DirE ?b0)) = 1"
    using t0 id0 w allow
    by (simp add: pass2_dir_def Let_def tileOf_def grid2_road addEdge_dirEdges)
  have ns: "?ns = ?ns ! 0 # tl ?ns" using len by (cases ?ns) simp_all
  have foldns: "fold F ?ns b = fold F (tl ?ns) (F (?ns ! 0) b)"
    for F :: "node \<Rightarrow> build_state \<Rightarrow> build_state" and b
    by (subst ns) simp
  have "pass2 grid2 2 ?nid ?ns =
        fold (\<lambda>n bs. fold (pass2_dir grid2 2 ?nid n) DIRS4 bs) (tl ?ns)
          (fold (pass2_dir grid2 2 ?nid (?ns ! 0)) [DirW, DirS, DirN]
             (pass2_dir grid2 2 ?nid (?ns ! 0) DirE ?b0))"
    unfolding pass2_def by (subst foldns) (simp add: DIRS4_def)
  then have "1 \<le> length (bs_dirEdges (pass2 grid2 2 ?nid ?ns))"
    using pass2_nodes_mono[of "fold (pass2_dir grid2 2 ?nid (?ns ! 0)) [DirW, DirS, DirN]
             (pass2_dir grid2 2 ?nid (?ns ! 0) DirE ?b0)" grid2 2 ?nid "tl ?ns"]
      pass2_dirs_mono[of "pass2_dir grid2 2 ?nid (?ns ! 0) DirE ?b0" grid2 2 ?nid "?ns ! 0" "[DirW, DirS, DirN]"]
      first by simp
  then obtain e where e: "e \<in> set (bs_dirEdges (pass2 grid2 2 ?nid ?ns))"
    by (cases "bs_dirEdges (pass2 grid2 2 ?nid ?ns)") auto
  have "link_inv (pass2 grid2 2 ?nid ?ns)"
    using pass2_inv_pass2[OF ok] by (simp add: pass2_inv_def)
  then have "bs_undirEdges (pass2 grid2 2 ?nid ?ns) \<noteq> []"
    using e unfolding link_inv_def by fastforce
  moreover have "length (undirEdges (buildRoadGraph grid2 None)) =
                 length (bs_undirEdges (pass2 grid2 2 ?nid ?ns))"
    by (simp add: buildRoadGraph_fields bridgePass_length)
  ultimately show ?thesis by auto
qed

text \<open>A map of 801x2 road tiles has 1602 nodes, all tiles being junctions or ends, and
  edges between them: none is flagged.\<close>

theorem bridge_pass_skipped_witness:
  "1600 < length (nodes (buildRoadGraph grid2 None)) \<and>
   undirEdges (buildRoadGraph grid2 None) \<noteq> [] \<and>
   \<not> u_isBridge (undirEdges (buildRoadGraph grid2 None) ! 0) \<and>
   u_bridgeScore (undirEdges (buildRoadGraph grid2 None) ! 0) = 0"
proof -
  have n: "1600 < length (nodes (buildRoadGraph grid2 None))" by (simp add: grid2_node_count)
  have "undirEdges (buildRoadGraph grid2 None) ! 0 \<in> set (undirEdges (buildRoadGraph grid2 None))"
    using grid2_has_edge by simp
  then show ?thesis using bridge_pass_skipped[OF n] n grid2_has_edge by blast
qed

subsection \<open>C9: lane offset of waypoints\<close>

lemma js_mod_nonneg:
  fixes k n :: int
  assumes "0 < n"
  shows "((k smod n) + n) smod n = k mod n"
proof -
  have r: "0 \<le> k mod n" "k mod n < n" using assms by simp_all
  define b :: int where "b = of_bool (sgn k \<noteq> sgn n \<and> \<not> n dvd k)"
  have a: "k smod n = k mod n - n * b" unfolding b_def by (rule signed_modulo_int_eq_modulo_int)
  have b01: "b = 0 \<or> (b = 1 \<and> k mod n \<noteq> 0)" unfolding b_def by (auto simp: dvd_eq_mod_eq_0)
  let ?x = "k smod n + n"
  have pos: "0 < ?x" using a b01 r by auto
  have "?x smod n = ?x mod n - n * of_bool (sgn ?x \<noteq> sgn n \<and> \<not> n dvd ?x)"
    by (rule signed_modulo_int_eq_modulo_int)
  also have "\<dots> = ?x mod n" using pos assms by simp
  also have "\<dots> = k mod n" using a b01 by auto
  finally show ?thesis .
qed

lemma wpAt_lanePoint:
  "wpAt m (e_dirX e) (e_dirY e) (laneOffset lb (clampLanes (e_lanes e)) lw) p = lanePoint m e lb lw p"
proof -
  have "0 < clampLanes (e_lanes e)" by (simp add: clampLanes_def)
  then show ?thesis
    by (simp add: wpAt_def lanePoint_def laneOffset_def Let_def js_mod_nonneg clampLanes_def)
qed

lemma toInt32_3 [simp]: "toInt32 3 = 3"
  by (simp add: toInt32_def)

subsection \<open>Pass 3 keeps every node on its own tile\<close>

lemma bfs_dir_keep:
  assumes "btd st k = 0"
  shows "btn (bfs_dir m rt cur cd d st) k = btn st k \<and> btd (bfs_dir m rt cur cd d st) k = 0"
  using assms by (auto simp: bfs_dir_def Let_def)

lemma bfs_dirs_keep:
  assumes "btd st k = 0"
  shows "btn (fold (bfs_dir m rt cur cd) ds st) k = btn st k \<and>
         btd (fold (bfs_dir m rt cur cd) ds st) k = 0"
  using assms
proof (induction ds arbitrary: st)
  case (Cons d ds)
  show ?case using Cons.IH[of "bfs_dir m rt cur cd d st"] bfs_dir_keep[OF Cons.prems, of m rt cur cd d]
    by simp
qed simp

lemma bfs_keep:
  assumes "btd st k = 0"
  shows "btn (bfs m rt qh st) k = btn st k \<and> btd (bfs m rt qh st) k = 0"
  using assms
proof (induction m rt qh st rule: bfs.induct)
  case (1 m rt qh st)
  show ?case
  proof (cases "qh < length (bq st)")
    case True
    let ?cur = "bq st ! qh"
    let ?cd = "btd st (idx (fst ?cur) (fst (snd ?cur)) (width m))"
    let ?st' = "fold (bfs_dir m rt ?cur ?cd) DIRS4 st"
    have k: "btn ?st' k = btn st k \<and> btd ?st' k = 0" by (rule bfs_dirs_keep[OF "1.prems"])
    have "btn (bfs m rt (Suc qh) ?st') k = btn ?st' k \<and> btd (bfs m rt (Suc qh) ?st') k = 0"
      using "1.IH"[OF True refl refl] k by simp
    then show ?thesis using True k by (subst (1 2) bfs.simps) (simp add: Let_def)
  next
    case False
    then show ?thesis using "1.prems" by (subst (1 2) bfs.simps) simp
  qed
qed

lemma seeds_keep:
  assumes ok: "nodes_ok m rt nid ns" and j: "j \<le> length ns" and i: "i < j"
  shows "btn (fold (bfs_seed m) (take j ns) st0) (idx (n_tx (ns ! i)) (n_ty (ns ! i)) (width m)) = Some i \<and>
         btd (fold (bfs_seed m) (take j ns) st0) (idx (n_tx (ns ! i)) (n_ty (ns ! i)) (width m)) = 0"
  using j i
proof (induction j)
  case (Suc j)
  have jl: "j < length ns" using Suc.prems by simp
  have t: "take (Suc j) ns = take j ns @ [ns ! j]" using jl by (simp add: take_Suc_conv_app_nth)
  have idj: "n_id (ns ! j) = j" using ok jl by (simp add: nodes_ok_def)
  show ?case
  proof (cases "i = j")
    case True
    then show ?thesis unfolding t by (simp add: bfs_seed_def Let_def idj)
  next
    case False
    then have ij: "i < j" using Suc.prems by simp
    have il: "i < length ns" using ij jl by simp
    have "idx (n_tx (ns ! i)) (n_ty (ns ! i)) (width m) \<noteq> idx (n_tx (ns ! j)) (n_ty (ns ! j)) (width m)"
    proof
      assume e: "idx (n_tx (ns ! i)) (n_ty (ns ! i)) (width m) = idx (n_tx (ns ! j)) (n_ty (ns ! j)) (width m)"
      have "nid (idx (n_tx (ns ! i)) (n_ty (ns ! i)) (width m)) = Some i"
           "nid (idx (n_tx (ns ! i)) (n_ty (ns ! i)) (width m)) = Some j"
        using ok il jl e unfolding nodes_ok_def by auto
      then show False using False by simp
    qed
    then show ?thesis using Suc.IH[OF _ ij] jl unfolding t by (simp add: bfs_seed_def Let_def)
  qed
qed simp

lemma pass3_node_tile:
  assumes ok: "nodes_ok m rt nid ns" and i: "i < length ns"
  shows "btn (pass3 m rt ns) (idx (n_tx (ns ! i)) (n_ty (ns ! i)) (width m)) = Some i"
proof -
  let ?st = "fold (bfs_seed m) ns \<lparr>bq = [], btn = Map.empty, btd = (\<lambda>_. 65535)\<rparr>"
  have "btn ?st (idx (n_tx (ns ! i)) (n_ty (ns ! i)) (width m)) = Some i \<and>
        btd ?st (idx (n_tx (ns ! i)) (n_ty (ns ! i)) (width m)) = 0"
    using seeds_keep[OF ok order_refl i] by simp
  then show ?thesis unfolding pass3_def using bfs_keep[of ?st _ m rt 0] by simp
qed

lemma built_tileToNode:
  assumes "i < length (nodes (buildRoadGraph m opt))"
  shows "tileToNode (buildRoadGraph m opt)
           (idx (n_tx (nodes (buildRoadGraph m opt) ! i)) (n_ty (nodes (buildRoadGraph m opt) ! i)) (width m))
         = Some i"
proof -
  have "tileToNode (buildRoadGraph m opt) = btn (pass3 m (rtOf opt) (snd (pass1 m (rtOf opt))))"
    by (simp add: buildRoadGraph_def Let_def rtOf_def)
  then show ?thesis
    using pass3_node_tile[OF pass1_nodes_ok, of i m "rtOf opt"] assms
    by (simp add: buildRoadGraph_fields rtOf_def)
qed

subsection \<open>C5: the intercept node\<close>








subsection \<open>The pursuit on the two-way strip\<close>

lemma strip10_more: "roadGraph strip10 = None" "tileSize strip10 = None"
  by (simp_all add: strip10_def)

lemma strip10_ensure: "fst (ensureRoadGraph strip10) = buildRoadGraph strip10 (Some 2)"
  by (simp add: ensureRoadGraph_def strip10_more Let_def)

lemma strip10_snap0: "fst (snapWorldToNearestRoadNode strip10 32 32 14) = Some 0"
proof -
  let ?G = "buildRoadGraph strip10 (Some 2)"
  have wt: "worldToTile (strip10\<lparr>roadGraph := r\<rparr>) 32 32 = Some (0, 0)" for r
    by (simp add: worldToTile_def tileSizeOf_def strip10_def)
  have l: "0 < length (nodes ?G)" by (simp add: strip10_nodes)
  have "tileToNode ?G (idx 0 0 10) = Some 0"
    using built_tileToNode[OF l] by (simp add: strip10_nodes mkNode_def strip10_sel)
  moreover have "roadTile ?G = 2" by (simp add: buildRoadGraph_fields)
  ultimately show ?thesis
    by (simp add: snapWorldToNearestRoadNode_def ensureRoadGraph_def strip10_more Let_def
        snapWorldToRoadTile_def wt inBounds_def strip10_sel)
qed

lemma dijkstra_loop_unfold:
  "dijkstra_loop g N k st =
     (if k = 0 then fst st
      else case heap_pop cmpD (snd st) of
        None \<Rightarrow> fst st
      | Some (cur, hp) \<Rightarrow>
          if Some (snd cur) \<noteq> fst st (fst cur) then dijkstra_loop g N (k - 1) (fst st, hp)
          else dijkstra_loop g N (k - 1)
                 (fold (relaxD N (fst cur)) (adjOf g (int (fst cur))) (fst st, hp)))"
proof (cases k)
  case (Suc n)
  show ?thesis unfolding Suc dijkstra_loop.simps diff_Suc_1 by simp
qed simp

lemma heap_single: "heap_push cmp [] x = [x]" "heap_pop cmp [x] = Some (x, [])"
   "heap_pop cmp [] = None"
  by (simp_all add: heap_push_def heap_pop_def heap_up.simps)

lemma strip10_costs: "dijkstraCosts (buildRoadGraph strip10 (Some 2)) 0 12000 1 = Some 9"
proof -
  let ?G = "buildRoadGraph strip10 (Some 2)"
  have n: "length (nodes ?G) = 2" by (simp add: strip10_nodes)
  have a0: "adjOf ?G (int 0) = [\<lparr>a_to = 1, a_edge = 0, a_cost = 9, a_dirX = 1, a_dirY = 0, a_lanes = 2,
        a_undirectedId = 0\<rparr>]"
    and a1: "adjOf ?G (int 1) = [\<lparr>a_to = 0, a_edge = 1, a_cost = 9, a_dirX = -1, a_dirY = 0, a_lanes = 2,
        a_undirectedId = 0\<rparr>]"
    by (simp_all add: adjOf_def strip10_adj)
  have s1: "dijkstra_loop ?G 2 12000 ((\<lambda>_. None)(0 \<mapsto> 0), [(0, 0)]) =
            dijkstra_loop ?G 2 11999 ((\<lambda>_. None)(0 \<mapsto> 0, 1 \<mapsto> 9), [(1, 9)])"
    by (subst dijkstra_loop_unfold) (simp add: heap_single a0[simplified] relaxD_def Let_def)
  have s2: "dijkstra_loop ?G 2 11999 ((\<lambda>_. None)(0 \<mapsto> 0, 1 \<mapsto> 9), [(1, 9)]) =
            dijkstra_loop ?G 2 11998 ((\<lambda>_. None)(0 \<mapsto> 0, 1 \<mapsto> 9), [])"
    by (subst dijkstra_loop_unfold) (simp add: heap_single a1[simplified] relaxD_def Let_def)
  have s3: "dijkstra_loop ?G 2 11998 ((\<lambda>_. None)(0 \<mapsto> 0, 1 \<mapsto> 9), []) =
            (\<lambda>_. None)(0 \<mapsto> 0, 1 \<mapsto> 9)"
    by (subst dijkstra_loop_unfold) (simp add: heap_single)
  have c: "dijkstra_loop ?G 2 12000 ((\<lambda>_. None)(0 \<mapsto> 0), [(0, 0)]) = (\<lambda>_. None)(0 \<mapsto> 0, 1 \<mapsto> 9)"
    by (simp only: s1 s2 s3)
  show ?thesis unfolding dijkstraCosts_def Let_def n heap_single by (simp add: c)
qed

subsection \<open>Soundness of the bridge flags\<close>

lemma enter_fields:
  "disc (enter (setParent st v u) v) = (disc st)(v := int (time st))"
  "low (enter (setParent st v u) v) = (low st)(v := int (time st))"
  "parent (enter (setParent st v u) v) = (parent st)(v := int u)"
  "time (enter (setParent st v u) v) = time st + 1"
  "t_edges (enter (setParent st v u) v) = t_edges st"
  by (simp_all add: enter_def setParent_def)

lemma enter_root_fields:
  "disc (enter st v) = (disc st)(v := int (time st))"
  "low (enter st v) = (low st)(v := int (time st))"
  "parent (enter st v) = parent st"
  "time (enter st v) = time st + 1"
  "t_edges (enter st v) = t_edges st"
  by (simp_all add: enter_def)

lemma markBridge_fields:
  "disc (markBridge st e) = disc st" "low (markBridge st e) = low st"
  "parent (markBridge st e) = parent st" "time (markBridge st e) = time st"
  "length (t_edges (markBridge st e)) = length (t_edges st)"
  by (simp_all add: markBridge_def)

lemma markBridge_flag:
  "i < length (t_edges st) \<Longrightarrow>
     u_isBridge (t_edges (markBridge st e) ! i) \<longleftrightarrow> u_isBridge (t_edges st ! i) \<or> i = e"
  by (auto simp: markBridge_def nth_list_update)

lemma afterChild_fields:
  "disc (afterChild st u v e) = disc st"
  "low (afterChild st u v e) = (low st)(u := min (low st u) (low st v))"
  "parent (afterChild st u v e) = parent st" "time (afterChild st u v e) = time st"
  "length (t_edges (afterChild st u v e)) = length (t_edges st)"
  by (simp_all add: afterChild_def Let_def markBridge_fields)

lemma afterChild_flag:
  assumes "i < length (t_edges st)" "u \<noteq> v"
  shows "u_isBridge (t_edges (afterChild st u v e) ! i) \<longleftrightarrow>
           u_isBridge (t_edges st ! i) \<or> (i = e \<and> low st v > disc st u)"
  using assms by (auto simp: afterChild_def Let_def markBridge_flag)

lemma backEdge_fields:
  "disc (backEdge st u v) = disc st"
  "low (backEdge st u v) = (low st)(u := min (low st u) (disc st v))"
  "parent (backEdge st u v) = parent st" "time (backEdge st u v) = time st"
  "t_edges (backEdge st u v) = t_edges st"
  by (simp_all add: backEdge_def)

lemma Dset_cong: "disc st' = disc st \<Longrightarrow> Dset N st' = Dset N st"
  by (simp add: Dset_def)

lemma frame_refl: "frame N st st u"
  by (simp add: frame_def)

lemma frame_trans:
  assumes ab: "frame N a b u" and bc: "frame N b c u"
  shows "frame N a c u"
proof -
  have s1: "Dset N a \<subseteq> Dset N b" and s2: "Dset N b \<subseteq> Dset N c"
    using ab bc unfolding frame_def by blast+
  have f1: "\<And>x. x \<in> Dset N a \<Longrightarrow> disc b x = disc a x \<and> parent b x = parent a x \<and>
          (x \<noteq> u \<longrightarrow> low b x = low a x)"
    using ab unfolding frame_def by blast
  have f2: "\<And>x. x \<in> Dset N b \<Longrightarrow> disc c x = disc b x \<and> parent c x = parent b x \<and>
          (x \<noteq> u \<longrightarrow> low c x = low b x)"
    using bc unfolding frame_def by blast
  have "disc c x = disc a x \<and> parent c x = parent a x \<and> (x \<noteq> u \<longrightarrow> low c x = low a x)"
    if x: "x \<in> Dset N a" for x
  proof -
    have xb: "x \<in> Dset N b" using x s1 by blast
    show ?thesis using f1[OF x] f2[OF xb] by simp
  qed
  moreover have "Dset N a \<subseteq> Dset N c" using s1 s2 by blast
  ultimately show ?thesis unfolding frame_def by blast
qed

lemma dfs_loop_inv:
  assumes "ugraph N nb" "nb u = dn @ ns" "tinv N nb ues0 st" "sinv N nb B A st u dn"
  shows "tinv N nb ues0 (dfs_loop N nb st u ns) \<and> sinv N nb B A (dfs_loop N nb st u ns) u (nb u) \<and>
         frame N st (dfs_loop N nb st u ns) u"
  using assms
proof (induction N nb st u ns arbitrary: A B dn rule: dfs_loop.induct)
  case (1 N nb st u)
  then show ?case by (simp add: frame_refl)
next
  case (2 N nb st u v eId rest)
  note g = "2.prems"(1) and nbu = "2.prems"(2) and ti = "2.prems"(3) and si = "2.prems"(4)
  have uN: "u < N" and uA: "u \<in> A" and AD: "A \<subseteq> Dset N st" and BD: "B \<subseteq> Dset N st"
    and uB: "u \<notin> B" and AB: "A - {u} \<subseteq> B"
    and s3: "\<And>a. a \<in> A \<Longrightarrow> disc st a \<le> disc st u"
    and s4: "\<And>x w e. x \<in> Dset N st \<Longrightarrow> x \<notin> A \<Longrightarrow> (w, e) \<in> set (nb x) \<Longrightarrow> w \<in> Dset N st"
    and s5: "low st u \<le> disc st u"
    and s6: "\<And>w e. (w, e) \<in> set dn \<Longrightarrow> w \<in> Dset N st \<and> (int w = parent st u \<or> low st u \<le> disc st w)"
    and s7: "\<And>x w e. x \<in> Dset N st \<Longrightarrow> x \<notin> B \<Longrightarrow> x \<noteq> u \<Longrightarrow> (w, e) \<in> set (nb x) \<Longrightarrow> low st u \<le> disc st w"
    using si unfolding sinv_def by blast+
  have t1: "\<And>x. x \<in> Dset N st \<Longrightarrow> 0 \<le> disc st x \<and> disc st x < int (time st)"
    and t2: "length (t_edges st) = length ues0"
    and t3: "\<And>i. i < length ues0 \<Longrightarrow> u_isBridge (t_edges st ! i) \<Longrightarrow> u_isBridge (ues0 ! i) \<or> sep N nb i"
    using ti unfolding tinv_def by blast+
  have vin: "(v, eId) \<in> set (nb u)" using nbu by simp
  have vN: "v < N" and uv: "(u, eId) \<in> set (nb v)"
    using g vin uN unfolding ugraph_def by blast+
  have uniq: "\<And>e'. (u, e') \<in> set (nb v) \<Longrightarrow> e' = eId"
    using g uv vN unfolding ugraph_def by blast
  have gN: "\<And>x w e. x < N \<Longrightarrow> (w, e) \<in> set (nb x) \<Longrightarrow> w < N"
    and gS: "\<And>x w e. x < N \<Longrightarrow> (w, e) \<in> set (nb x) \<Longrightarrow> (x, e) \<in> set (nb w)"
    using g unfolding ugraph_def by blast+
  have uD: "u \<in> Dset N st" using uA AD by blast
  have nbu': "nb u = (dn @ [(v, eId)]) @ rest" using nbu by simp
  show ?case
  proof (cases "v < N \<and> disc st v = -1")
    case True
    let ?st1 = "enter (setParent st v u) v"
    let ?st2 = "dfs_loop N nb ?st1 v (nb v)"
    let ?st3 = "afterChild ?st2 u v eId"
    have vD: "v \<notin> Dset N st" using True by (simp add: Dset_def)
    have uv_ne: "u \<noteq> v" using uD vD by blast
    have D1: "Dset N ?st1 = insert v (Dset N st)"
      using True by (auto simp: Dset_def enter_fields)
    have d1: "\<And>x. x \<in> Dset N st \<Longrightarrow> disc ?st1 x = disc st x \<and> low ?st1 x = low st x \<and>
                 parent ?st1 x = parent st x"
      using vD by (auto simp: enter_fields)
    have dv: "disc ?st1 v = int (time st)" "low ?st1 v = int (time st)" "parent ?st1 v = int u"
      by (simp_all add: enter_fields)
    have ti1: "tinv N nb ues0 ?st1"
      unfolding tinv_def D1
    proof (intro conjI allI impI)
      fix x assume "x \<in> insert v (Dset N st)"
      then show "0 \<le> disc ?st1 x" "disc ?st1 x < int (time ?st1)"
        using t1[of x] d1[of x] dv by (auto simp: enter_fields(4))
    next
      show "length (t_edges ?st1) = length ues0" using t2 by (simp add: enter_fields)
    next
      fix i assume "i < length ues0" "u_isBridge (t_edges ?st1 ! i)"
      then show "u_isBridge (ues0 ! i) \<or> sep N nb i" using t3 by (simp add: enter_fields)
    qed
    have si1: "sinv N nb (Dset N st) (insert v A) ?st1 v []"
      unfolding sinv_def D1
    proof (intro conjI allI impI)
      show "v < N" by (rule vN)
      show "v \<in> insert v A" by simp
      show "insert v A \<subseteq> insert v (Dset N st)" using AD by blast
      show "Dset N st \<subseteq> insert v (Dset N st)" by blast
      show "v \<notin> Dset N st" by (rule vD)
      show "insert v A - {v} \<subseteq> Dset N st" using AD by blast
      show "low ?st1 v \<le> disc ?st1 v" by (simp add: dv)
    next
      fix a assume "a \<in> insert v A"
      then show "disc ?st1 a \<le> disc ?st1 v"
        using t1[of a] d1[of a] AD dv by auto
    next
      fix x w e assume "x \<in> insert v (Dset N st) \<and> x \<notin> insert v A \<and> (w, e) \<in> set (nb x)"
      then show "w \<in> insert v (Dset N st)" using s4[of x w e] by blast
    next
      fix w :: nat and e :: nat assume "(w, e) \<in> set []"
      then show "w \<in> insert v (Dset N st)" "int w = parent ?st1 v \<or> low ?st1 v \<le> disc ?st1 w"
        by simp_all
    next
      fix x w e
      assume "x \<in> insert v (Dset N st) \<and> x \<notin> Dset N st \<and> x \<noteq> v \<and> (w, e) \<in> set (nb x)"
      then show "low ?st1 v \<le> disc ?st1 w" by blast
    qed
    have ih1: "tinv N nb ues0 ?st2 \<and> sinv N nb (Dset N st) (insert v A) ?st2 v (nb v) \<and>
               frame N ?st1 ?st2 v"
      by (rule "2.IH"(1)[OF True g _ ti1 si1]) simp
    then have ti2: "tinv N nb ues0 ?st2" and si2: "sinv N nb (Dset N st) (insert v A) ?st2 v (nb v)"
      and fr2: "frame N ?st1 ?st2 v" by blast+
    have D12: "Dset N ?st1 \<subseteq> Dset N ?st2"
      and f2: "\<And>x. x \<in> Dset N ?st1 \<Longrightarrow> disc ?st2 x = disc ?st1 x \<and> parent ?st2 x = parent ?st1 x \<and>
                 (x \<noteq> v \<longrightarrow> low ?st2 x = low ?st1 x)"
      using fr2 unfolding frame_def by blast+
    have D02: "Dset N st \<subseteq> Dset N ?st2" and vD2: "v \<in> Dset N ?st2" using D12 D1 by blast+
    have o2: "\<And>x. x \<in> Dset N st \<Longrightarrow> disc ?st2 x = disc st x \<and> parent ?st2 x = parent st x \<and>
                 low ?st2 x = low st x"
    proof -
      fix x assume x: "x \<in> Dset N st"
      then have "x \<in> Dset N ?st1" "x \<noteq> v" using D1 vD by blast+
      then show "disc ?st2 x = disc st x \<and> parent ?st2 x = parent st x \<and> low ?st2 x = low st x"
        using f2[of x] d1[OF x] by simp
    qed
    have pv2: "parent ?st2 v = int u" using f2[of v] D1 dv by simp
    have q4: "\<And>x w e. x \<in> Dset N ?st2 \<Longrightarrow> x \<notin> insert v A \<Longrightarrow> (w, e) \<in> set (nb x) \<Longrightarrow> w \<in> Dset N ?st2"
      and q5: "low ?st2 v \<le> disc ?st2 v"
      and q6: "\<And>w e. (w, e) \<in> set (nb v) \<Longrightarrow>
                 w \<in> Dset N ?st2 \<and> (int w = parent ?st2 v \<or> low ?st2 v \<le> disc ?st2 w)"
      and q7: "\<And>x w e. x \<in> Dset N ?st2 \<Longrightarrow> x \<notin> Dset N st \<Longrightarrow> x \<noteq> v \<Longrightarrow> (w, e) \<in> set (nb x) \<Longrightarrow>
                 low ?st2 v \<le> disc ?st2 w"
      using si2 unfolding sinv_def by blast+
    have r1: "\<And>x. x \<in> Dset N ?st2 \<Longrightarrow> 0 \<le> disc ?st2 x \<and> disc ?st2 x < int (time ?st2)"
      and r2: "length (t_edges ?st2) = length ues0"
      and r3: "\<And>i. i < length ues0 \<Longrightarrow> u_isBridge (t_edges ?st2 ! i) \<Longrightarrow> u_isBridge (ues0 ! i) \<or> sep N nb i"
      using ti2 unfolding tinv_def by blast+
    have D3: "Dset N ?st3 = Dset N ?st2" by (rule Dset_cong) (simp add: afterChild_fields)
    have l3: "low ?st3 u = min (low st u) (low ?st2 v)" "\<And>x. x \<noteq> u \<Longrightarrow> low ?st3 x = low ?st2 x"
      using o2[OF uD] by (simp_all add: afterChild_fields)
    have l3u: "low ?st3 u \<le> low st u" "low ?st3 u \<le> low ?st2 v" using l3(1) by simp_all
    have bridge: "sep N nb eId" if mark: "low ?st2 v > disc ?st2 u"
    proof -
      define S where "S = Dset N ?st2 - Dset N st"
      have S1: "S \<subseteq> {..<N}" by (auto simp: S_def Dset_def)
      have S2: "v \<in> S" "u \<notin> S" using vD2 vD uD by (auto simp: S_def)
      have S3: "w \<in> S" if x: "x \<in> S" and we: "(w, e') \<in> set (nb x)" and ne: "e' \<noteq> eId" for x w e'
      proof -
        have xN: "x < N" using x S1 by blast
        have lw: "w \<in> Dset N ?st2 \<and> low ?st2 v \<le> disc ?st2 w"
        proof (cases "x = v")
          case True
          have "w \<noteq> u" using uniq[of e'] we ne True by blast
          then show ?thesis using q6[of w e'] we True pv2 by auto
        next
          case False
          have "x \<notin> insert v A" using x False AD by (auto simp: S_def)
          then have "w \<in> Dset N ?st2" using q4[of x w e'] x we by (auto simp: S_def)
          moreover have "low ?st2 v \<le> disc ?st2 w" using q7[of x w e'] x we False by (auto simp: S_def)
          ultimately show ?thesis by simp
        qed
        have big: "disc st u < disc ?st2 w" using lw mark o2[OF uD] by simp
        have "w \<notin> Dset N st"
        proof
          assume wD: "w \<in> Dset N st"
          then have dw: "disc ?st2 w = disc st w" using o2 by simp
          show False
          proof (cases "w \<in> A")
            case True
            then show False using s3[of w] big dw by simp
          next
            case False
            have "(x, e') \<in> set (nb w)" using gS[OF xN we] .
            then have "x \<in> Dset N st" using s4[OF wD False] by blast
            then show False using x by (simp add: S_def)
          qed
        qed
        then show ?thesis using lw by (simp add: S_def)
      qed
      have "S \<subseteq> {..<N} \<and> (\<exists>x w. x \<in> S \<and> w \<notin> S \<and> (w, eId) \<in> set (nb x)) \<and>
          (\<forall>x w e'. x \<in> S \<and> (w, e') \<in> set (nb x) \<and> e' \<noteq> eId \<longrightarrow> w \<in> S)"
      proof (intro conjI allI impI)
        show "S \<subseteq> {..<N}" by (rule S1)
        show "\<exists>x w. x \<in> S \<and> w \<notin> S \<and> (w, eId) \<in> set (nb x)"
          using S2 uv by (intro exI[of _ v] exI[of _ u]) simp
      next
        fix x w e' assume "x \<in> S \<and> (w, e') \<in> set (nb x) \<and> e' \<noteq> eId"
        then show "w \<in> S" using S3[of x w e'] by blast
      qed
      then show ?thesis unfolding sep_def by (rule exI)
    qed
    have ti3: "tinv N nb ues0 ?st3"
      unfolding tinv_def D3
    proof (intro conjI allI impI)
      fix x assume "x \<in> Dset N ?st2"
      then show "0 \<le> disc ?st3 x" "disc ?st3 x < int (time ?st3)"
        using r1[of x] by (simp_all add: afterChild_fields)
    next
      show "length (t_edges ?st3) = length ues0" using r2 by (simp add: afterChild_fields)
    next
      fix i assume i: "i < length ues0" and fl: "u_isBridge (t_edges ?st3 ! i)"
      have "u_isBridge (t_edges ?st2 ! i) \<or> (i = eId \<and> low ?st2 v > disc ?st2 u)"
        using afterChild_flag[of i ?st2 u v eId] i r2 uv_ne fl by simp
      then show "u_isBridge (ues0 ! i) \<or> sep N nb i" using r3[OF i] bridge by blast
    qed
    have si3: "sinv N nb B A ?st3 u (dn @ [(v, eId)])"
      unfolding sinv_def D3
    proof (intro conjI allI impI)
      show "u < N" by (rule uN)
      show "u \<in> A" by (rule uA)
      show "A \<subseteq> Dset N ?st2" using AD D02 by blast
      show "B \<subseteq> Dset N ?st2" using BD D02 by blast
      show "u \<notin> B" by (rule uB)
      show "A - {u} \<subseteq> B" by (rule AB)
      show "low ?st3 u \<le> disc ?st3 u" using l3u(1) s5 o2[OF uD] by (simp add: afterChild_fields(1,3))
    next
      fix a assume "a \<in> A"
      then show "disc ?st3 a \<le> disc ?st3 u"
        using s3[of a] o2[of a] o2[OF uD] AD by (auto simp: afterChild_fields(1,3))
    next
      fix x w e assume a: "x \<in> Dset N ?st2 \<and> x \<notin> A \<and> (w, e) \<in> set (nb x)"
      show "w \<in> Dset N ?st2"
      proof (cases "x = v")
        case True
        then show ?thesis using q6[of w e] a by blast
      next
        case False
        then show ?thesis using q4[of x w e] a by blast
      qed
    next
      fix w e assume a: "(w, e) \<in> set (dn @ [(v, eId)])"
      have both: "w \<in> Dset N ?st2 \<and> (int w = parent ?st3 u \<or> low ?st3 u \<le> disc ?st3 w)"
      proof (cases "(w, e) \<in> set dn")
        case True
        then have "w \<in> Dset N st" "int w = parent st u \<or> low st u \<le> disc st w"
          using s6[of w e] by blast+
        then show ?thesis using o2[of w] o2[OF uD] l3u(1) D02 by (auto simp: afterChild_fields(1,3))
      next
        case False
        then have "w = v" using a by simp
        then show ?thesis using vD2 l3u(2) q5 by (auto simp: afterChild_fields(1,3))
      qed
      then show "w \<in> Dset N ?st2" "int w = parent ?st3 u \<or> low ?st3 u \<le> disc ?st3 w" by blast+
    next
      fix x w e assume a: "x \<in> Dset N ?st2 \<and> x \<notin> B \<and> x \<noteq> u \<and> (w, e) \<in> set (nb x)"
      have d3: "disc ?st3 w = disc ?st2 w" by (simp add: afterChild_fields(1,3))
      show "low ?st3 u \<le> disc ?st3 w"
      proof (cases "x \<in> Dset N st")
        case True
        have xA: "x \<notin> A" using a AB by blast
        have "w \<in> Dset N st" using s4[OF True xA] a by blast
        then have "disc ?st2 w = disc st w" using o2 by simp
        moreover have "low st u \<le> disc st w" using s7[OF True] a by blast
        ultimately show ?thesis using l3u(1) d3 by simp
      next
        case False
        show ?thesis
        proof (cases "x = v")
          case True
          have "int w = parent ?st2 v \<or> low ?st2 v \<le> disc ?st2 w" using q6[of w e] a True by blast
          then show ?thesis
          proof
            assume "int w = parent ?st2 v"
            then have "w = u" using pv2 by simp
            then show ?thesis using l3u(1) s5 o2[OF uD] d3 by simp
          next
            assume "low ?st2 v \<le> disc ?st2 w"
            then show ?thesis using l3u(2) d3 by simp
          qed
        next
          case xv: False
          have "low ?st2 v \<le> disc ?st2 w" using q7[of x w e] a False xv by blast
          then show ?thesis using l3u(2) d3 by simp
        qed
      qed
    qed
    have ih2: "tinv N nb ues0 (dfs_loop N nb ?st3 u rest) \<and>
               sinv N nb B A (dfs_loop N nb ?st3 u rest) u (nb u) \<and>
               frame N ?st3 (dfs_loop N nb ?st3 u rest) u"
      by (rule "2.IH"(2)[OF True g nbu' ti3 si3])
    have eq: "dfs_loop N nb st u ((v, eId) # rest) = dfs_loop N nb ?st3 u rest"
      using True by simp
    have fr03: "frame N st ?st3 u"
      unfolding frame_def D3
    proof (intro conjI allI impI)
      show "Dset N st \<subseteq> Dset N ?st2" by (rule D02)
    next
      fix x assume x: "x \<in> Dset N st"
      show "disc ?st3 x = disc st x" "parent ?st3 x = parent st x"
        using o2[OF x] by (simp_all add: afterChild_fields(1,3))
      assume "x \<noteq> u"
      then show "low ?st3 x = low st x" using l3(2)[of x] o2[OF x] by simp
    qed
    have "frame N st (dfs_loop N nb ?st3 u rest) u"
      using frame_trans[OF fr03] ih2 by blast
    then show ?thesis using ih2 unfolding eq by blast
  next
    case False
    then have vD: "v \<in> Dset N st" using vN by (simp add: Dset_def)
    show ?thesis
    proof (cases "int v \<noteq> parent st u")
      case True
      let ?st1 = "backEdge st u v"
      have D1: "Dset N ?st1 = Dset N st" by (rule Dset_cong) (simp add: backEdge_fields)
      have l1: "low ?st1 u \<le> low st u" "low ?st1 u \<le> disc st v"
        by (simp_all add: backEdge_fields)
      have ti1: "tinv N nb ues0 ?st1"
        using ti unfolding tinv_def D1 by (simp add: backEdge_fields)
      have si1: "sinv N nb B A ?st1 u (dn @ [(v, eId)])"
        unfolding sinv_def D1
      proof (intro conjI allI impI)
        show "u < N" by (rule uN)
        show "u \<in> A" by (rule uA)
        show "A \<subseteq> Dset N st" by (rule AD)
        show "B \<subseteq> Dset N st" by (rule BD)
        show "u \<notin> B" by (rule uB)
        show "A - {u} \<subseteq> B" by (rule AB)
        show "low ?st1 u \<le> disc ?st1 u" using l1(1) s5 by (simp add: backEdge_fields(1))
      next
        fix a assume "a \<in> A"
        then show "disc ?st1 a \<le> disc ?st1 u" using s3[of a] by (simp add: backEdge_fields)
      next
        fix x w e assume "x \<in> Dset N st \<and> x \<notin> A \<and> (w, e) \<in> set (nb x)"
        then show "w \<in> Dset N st" using s4[of x w e] by blast
      next
        fix w e assume a: "(w, e) \<in> set (dn @ [(v, eId)])"
        have both: "w \<in> Dset N st \<and> (int w = parent ?st1 u \<or> low ?st1 u \<le> disc ?st1 w)"
        proof (cases "(w, e) \<in> set dn")
          case True
          then show ?thesis using s6[of w e] l1(1) by (auto simp: backEdge_fields(1,3))
        next
          case False
          then have "w = v" using a by simp
          then show ?thesis using vD l1(2) by (simp add: backEdge_fields(1,3))
        qed
        then show "w \<in> Dset N st" "int w = parent ?st1 u \<or> low ?st1 u \<le> disc ?st1 w" by blast+
      next
        fix x w e assume a: "x \<in> Dset N st \<and> x \<notin> B \<and> x \<noteq> u \<and> (w, e) \<in> set (nb x)"
        then have "low st u \<le> disc st w" using s7[of x w e] by blast
        then show "low ?st1 u \<le> disc ?st1 w" using l1(1) by (simp add: backEdge_fields(1))
      qed
      have ih: "tinv N nb ues0 (dfs_loop N nb ?st1 u rest) \<and>
               sinv N nb B A (dfs_loop N nb ?st1 u rest) u (nb u) \<and>
               frame N ?st1 (dfs_loop N nb ?st1 u rest) u"
        by (rule "2.IH"(3)[OF False True g nbu' ti1 si1])
      have eq: "dfs_loop N nb st u ((v, eId) # rest) = dfs_loop N nb ?st1 u rest"
        using False True by auto
      have fr01: "frame N st ?st1 u"
        unfolding frame_def D1 by (auto simp: backEdge_fields)
      have "frame N st (dfs_loop N nb ?st1 u rest) u"
        using frame_trans[OF fr01] ih by blast
      then show ?thesis using ih unfolding eq by blast
    next
      case eqp: False
      have si1: "sinv N nb B A st u (dn @ [(v, eId)])"
        unfolding sinv_def
      proof (intro conjI allI impI)
        show "u < N" by (rule uN)
        show "u \<in> A" by (rule uA)
        show "A \<subseteq> Dset N st" by (rule AD)
        show "B \<subseteq> Dset N st" by (rule BD)
        show "u \<notin> B" by (rule uB)
        show "A - {u} \<subseteq> B" by (rule AB)
        show "low st u \<le> disc st u" by (rule s5)
      next
        fix a assume "a \<in> A"
        then show "disc st a \<le> disc st u" by (rule s3)
      next
        fix x w e assume "x \<in> Dset N st \<and> x \<notin> A \<and> (w, e) \<in> set (nb x)"
        then show "w \<in> Dset N st" using s4[of x w e] by blast
      next
        fix w e assume a: "(w, e) \<in> set (dn @ [(v, eId)])"
        have both: "w \<in> Dset N st \<and> (int w = parent st u \<or> low st u \<le> disc st w)"
        proof (cases "(w, e) \<in> set dn")
          case True
          then show ?thesis using s6[of w e] by blast
        next
          case False
          then have "w = v" using a by simp
          then show ?thesis using vD eqp by simp
        qed
        then show "w \<in> Dset N st" "int w = parent st u \<or> low st u \<le> disc st w" by blast+
      next
        fix x w e assume a: "x \<in> Dset N st \<and> x \<notin> B \<and> x \<noteq> u \<and> (w, e) \<in> set (nb x)"
        then show "low st u \<le> disc st w" using s7[of x w e] by blast
      qed
      have ih: "tinv N nb ues0 (dfs_loop N nb st u rest) \<and>
               sinv N nb B A (dfs_loop N nb st u rest) u (nb u) \<and>
               frame N st (dfs_loop N nb st u rest) u"
        by (rule "2.IH"(4)[OF False eqp g nbu' ti si1])
      have eq: "dfs_loop N nb st u ((v, eId) # rest) = dfs_loop N nb st u rest"
        using False eqp by auto
      show ?thesis using ih unfolding eq by blast
    qed
  qed
qed

lemma dfs_topinv:
  assumes g: "ugraph N nb" and i: "i < N" and nd: "disc st i = -1" and top: "topinv N nb ues0 st"
  shows "topinv N nb ues0 (dfs N nb st i)"
proof -
  let ?st1 = "enter st i"
  have ti: "tinv N nb ues0 st"
    and cl: "\<And>x w e. x \<in> Dset N st \<Longrightarrow> (w, e) \<in> set (nb x) \<Longrightarrow> w \<in> Dset N st"
    using top unfolding topinv_def by blast+
  have t1: "\<And>x. x \<in> Dset N st \<Longrightarrow> 0 \<le> disc st x \<and> disc st x < int (time st)"
    and t2: "length (t_edges st) = length ues0"
    and t3: "\<And>i. i < length ues0 \<Longrightarrow> u_isBridge (t_edges st ! i) \<Longrightarrow> u_isBridge (ues0 ! i) \<or> sep N nb i"
    using ti unfolding tinv_def by blast+
  have iD: "i \<notin> Dset N st" using nd by (simp add: Dset_def)
  have D1: "Dset N ?st1 = insert i (Dset N st)"
    using i by (auto simp: Dset_def enter_root_fields)
  have ti1: "tinv N nb ues0 ?st1"
    unfolding tinv_def D1
  proof (intro conjI allI impI)
    fix x assume "x \<in> insert i (Dset N st)"
    then show "0 \<le> disc ?st1 x" "disc ?st1 x < int (time ?st1)"
      using t1[of x] by (auto simp: enter_root_fields)
  next
    show "length (t_edges ?st1) = length ues0" using t2 by (simp add: enter_root_fields)
  next
    fix j assume "j < length ues0" "u_isBridge (t_edges ?st1 ! j)"
    then show "u_isBridge (ues0 ! j) \<or> sep N nb j" using t3 by (simp add: enter_root_fields)
  qed
  have si1: "sinv N nb (Dset N st) {i} ?st1 i []"
    unfolding sinv_def D1
  proof (intro conjI allI impI)
    show "i < N" by (rule i)
    show "i \<in> {i}" by simp
    show "{i} \<subseteq> insert i (Dset N st)" by simp
    show "Dset N st \<subseteq> insert i (Dset N st)" by blast
    show "i \<notin> Dset N st" by (rule iD)
    show "{i} - {i} \<subseteq> Dset N st" by simp
    show "low ?st1 i \<le> disc ?st1 i" by (simp add: enter_root_fields)
  next
    fix a assume "a \<in> {i}"
    then show "disc ?st1 a \<le> disc ?st1 i" by simp
  next
    fix x w e assume "x \<in> insert i (Dset N st) \<and> x \<notin> {i} \<and> (w, e) \<in> set (nb x)"
    then show "w \<in> insert i (Dset N st)" using cl[of x w e] by blast
  next
    fix w :: nat and e :: nat assume "(w, e) \<in> set []"
    then show "w \<in> insert i (Dset N st)" "int w = parent ?st1 i \<or> low ?st1 i \<le> disc ?st1 w"
      by simp_all
  next
    fix x w e
    assume "x \<in> insert i (Dset N st) \<and> x \<notin> Dset N st \<and> x \<noteq> i \<and> (w, e) \<in> set (nb x)"
    then show "low ?st1 i \<le> disc ?st1 w" by blast
  qed
  have r: "tinv N nb ues0 (dfs N nb st i) \<and> sinv N nb (Dset N st) {i} (dfs N nb st i) i (nb i) \<and>
           frame N ?st1 (dfs N nb st i) i"
    unfolding dfs_def by (rule dfs_loop_inv[OF g _ ti1 si1]) simp
  then have q4: "\<And>x w e. x \<in> Dset N (dfs N nb st i) \<Longrightarrow> x \<notin> {i} \<Longrightarrow> (w, e) \<in> set (nb x) \<Longrightarrow>
                   w \<in> Dset N (dfs N nb st i)"
    and q6: "\<And>w e. (w, e) \<in> set (nb i) \<Longrightarrow> w \<in> Dset N (dfs N nb st i)"
    unfolding sinv_def by blast+
  have "w \<in> Dset N (dfs N nb st i)" if "x \<in> Dset N (dfs N nb st i)" "(w, e) \<in> set (nb x)" for x w e
    using that q4[of x w e] q6[of w e] by (cases "x = i") auto
  then show ?thesis using r unfolding topinv_def by blast
qed

lemma computeBridges_sound:
  assumes g: "ugraph N nb" and i: "i < length ues" and fl: "u_isBridge (computeBridges N ues nb ! i)"
  shows "u_isBridge (ues ! i) \<or> sep N nb i"
proof -
  let ?st0 = "\<lparr>disc = (\<lambda>_. -1), low = (\<lambda>_. -1), parent = (\<lambda>_. -1), time = 0, t_edges = ues\<rparr>"
  let ?f = "\<lambda>i st. if disc st i = -1 then dfs N nb st i else st"
  have "topinv N nb ues (fold ?f [0..<N] ?st0)"
  proof (rule fold_invariant[where P = "topinv N nb ues"])
    show "topinv N nb ues ?st0" by (simp add: topinv_def tinv_def Dset_def)
  next
    fix j st assume "j \<in> set [0..<N]" "topinv N nb ues st"
    then show "topinv N nb ues (?f j st)" using dfs_topinv[OF g, of j st ues] by simp
  qed
  then show ?thesis using i fl unfolding computeBridges_def topinv_def tinv_def by blast
qed

subsection \<open>The undirected adjacency\<close>

lemma buildUndAdj_fold: "buildUndAdj N ues = fold undStep ues (replicate N [])"
proof -
  have "(\<lambda>e a. let a1 = a[u_u e := a ! u_u e @ [(u_v e, u_id e)]]
                 in a1[u_v e := a1 ! u_v e @ [(u_u e, u_id e)]]) = undStep"
    by (intro ext) (simp add: undStep_def)
  then show ?thesis unfolding buildUndAdj_def by simp
qed

lemma undStep_length: "length (undStep e a) = length a"
  by (simp add: undStep_def Let_def)

lemma undStep_mem:
  assumes "u_u e < length a" "u_v e < length a" "x < length a"
  shows "p \<in> set (undStep e a ! x) \<longleftrightarrow>
           p \<in> set (a ! x) \<or> (u_u e = x \<and> p = (u_v e, u_id e)) \<or> (u_v e = x \<and> p = (u_u e, u_id e))"
proof -
  let ?a1 = "a[u_u e := a ! u_u e @ [(u_v e, u_id e)]]"
  have l1: "length ?a1 = length a" by simp
  have m1: "p \<in> set (?a1 ! y) \<longleftrightarrow> p \<in> set (a ! y) \<or> (u_u e = y \<and> p = (u_v e, u_id e))"
    if "y < length a" for y
  proof (cases "u_u e = y")
    case True
    then show ?thesis using that by auto
  next
    case False
    then show ?thesis by simp
  qed
  have u: "undStep e a = ?a1[u_v e := ?a1 ! u_v e @ [(u_u e, u_id e)]]"
    by (simp add: undStep_def Let_def)
  show ?thesis
  proof (cases "u_v e = x")
    case True
    have "undStep e a ! x = ?a1 ! x @ [(u_u e, u_id e)]"
      unfolding u using True assms(3) l1 by simp
    then show ?thesis using m1[OF assms(3)] True by auto
  next
    case False
    have "undStep e a ! x = ?a1 ! x" unfolding u using False by simp
    then show ?thesis using m1[OF assms(3)] False by simp
  qed
qed

lemma undAdj_fold:
  assumes "\<forall>e \<in> set ues. u_u e < N \<and> u_v e < N" and "length a = N" and "x < N"
  shows "length (fold undStep ues a) = N \<and>
         (p \<in> set (fold undStep ues a ! x) \<longleftrightarrow>
            p \<in> set (a ! x) \<or>
            (\<exists>e \<in> set ues. (u_u e = x \<and> p = (u_v e, u_id e)) \<or> (u_v e = x \<and> p = (u_u e, u_id e))))"
  using assms
proof (induction ues arbitrary: a)
  case Nil
  then show ?case by simp
next
  case (Cons e ues)
  have b: "u_u e < length a" "u_v e < length a" "x < length a"
    using Cons.prems by simp_all
  have l2: "length (undStep e a) = N" using Cons.prems(2) by (simp add: undStep_length)
  have r: "\<forall>e \<in> set ues. u_u e < N \<and> u_v e < N" using Cons.prems(1) by simp
  have ih: "length (fold undStep ues (undStep e a)) = N"
    "p \<in> set (fold undStep ues (undStep e a) ! x) \<longleftrightarrow>
            p \<in> set (undStep e a ! x) \<or>
            (\<exists>e \<in> set ues. (u_u e = x \<and> p = (u_v e, u_id e)) \<or> (u_v e = x \<and> p = (u_u e, u_id e)))"
    using Cons.IH[OF r l2 Cons.prems(3)] by blast+
  have f: "fold undStep (e # ues) a = fold undStep ues (undStep e a)" by simp
  have "p \<in> set (fold undStep (e # ues) a ! x) \<longleftrightarrow>
            p \<in> set (a ! x) \<or>
            (\<exists>e' \<in> set (e # ues). (u_u e' = x \<and> p = (u_v e', u_id e')) \<or>
                                   (u_v e' = x \<and> p = (u_u e', u_id e')))"
    unfolding f ih(2) undStep_mem[OF b] by (simp only: set_simps bex_simps ball_simps) blast
  then show ?case unfolding f using ih(1) by blast
qed

lemma undAdj_set:
  assumes s: "simple_ues N ues" and x: "x < N"
  shows "(w, k) \<in> set (buildUndAdj N ues ! x) \<longleftrightarrow>
           k < length ues \<and> ((u_u (ues ! k) = x \<and> u_v (ues ! k) = w) \<or>
                              (u_v (ues ! k) = x \<and> u_u (ues ! k) = w))"
proof -
  have ids: "\<And>k. k < length ues \<Longrightarrow> u_id (ues ! k) = k"
    and lt: "\<And>k. k < length ues \<Longrightarrow> u_u (ues ! k) < u_v (ues ! k)"
    and bd: "\<And>k. k < length ues \<Longrightarrow> u_v (ues ! k) < N"
    using s unfolding simple_ues_def by blast+
  have b: "\<forall>e \<in> set ues. u_u e < N \<and> u_v e < N"
  proof
    fix e assume "e \<in> set ues"
    then obtain k where k: "k < length ues" "e = ues ! k" by (auto simp: in_set_conv_nth)
    then show "u_u e < N \<and> u_v e < N" using lt[OF k(1)] bd[OF k(1)] by simp
  qed
  have m: "(w, k) \<in> set (buildUndAdj N ues ! x) \<longleftrightarrow>
           (\<exists>e \<in> set ues. (u_u e = x \<and> (w, k) = (u_v e, u_id e)) \<or>
                           (u_v e = x \<and> (w, k) = (u_u e, u_id e)))"
    unfolding buildUndAdj_fold using undAdj_fold[OF b, of "replicate N []" x "(w, k)"] x by simp
  show ?thesis
  proof
    assume "(w, k) \<in> set (buildUndAdj N ues ! x)"
    then obtain e where e: "e \<in> set ues"
      "(u_u e = x \<and> (w, k) = (u_v e, u_id e)) \<or> (u_v e = x \<and> (w, k) = (u_u e, u_id e))"
      unfolding m by blast
    from e(1) obtain j where j: "j < length ues" "e = ues ! j" by (auto simp: in_set_conv_nth)
    have "u_id e = j" using ids[OF j(1)] j(2) by simp
    then have "k = j" using e(2) by auto
    then show "k < length ues \<and> ((u_u (ues ! k) = x \<and> u_v (ues ! k) = w) \<or>
                              (u_v (ues ! k) = x \<and> u_u (ues ! k) = w))"
      using j e(2) by auto
  next
    assume a: "k < length ues \<and> ((u_u (ues ! k) = x \<and> u_v (ues ! k) = w) \<or>
                              (u_v (ues ! k) = x \<and> u_u (ues ! k) = w))"
    then have "ues ! k \<in> set ues" "u_id (ues ! k) = k" using ids by simp_all
    then show "(w, k) \<in> set (buildUndAdj N ues ! x)"
      unfolding m using a by (intro bexI[of _ "ues ! k"]) auto
  qed
qed

lemma undAdj_ugraph:
  assumes s: "simple_ues N ues"
  shows "ugraph N (\<lambda>u. buildUndAdj N ues ! u)"
  unfolding ugraph_def
proof (intro allI impI)
  fix x w e assume a: "x < N \<and> (w, e) \<in> set (buildUndAdj N ues ! x)"
  then have x: "x < N" by simp
  have e: "e < length ues" "(u_u (ues ! e) = x \<and> u_v (ues ! e) = w) \<or>
                              (u_v (ues ! e) = x \<and> u_u (ues ! e) = w)"
    using a undAdj_set[OF s x, of w e] by blast+
  have b: "u_u (ues ! e) < u_v (ues ! e)" "u_v (ues ! e) < N"
    using s e(1) unfolding simple_ues_def by blast+
  have w: "w < N" using e(2) b by auto
  have sym: "(x, e) \<in> set (buildUndAdj N ues ! w)"
    using undAdj_set[OF s w, of x e] e by blast
  have uniq: "e' = e" if "(w, e') \<in> set (buildUndAdj N ues ! x)" for e'
  proof -
    have e': "e' < length ues" "(u_u (ues ! e') = x \<and> u_v (ues ! e') = w) \<or>
                              (u_v (ues ! e') = x \<and> u_u (ues ! e') = w)"
      using that undAdj_set[OF s x, of w e'] by blast+
    have b': "u_u (ues ! e') < u_v (ues ! e')"
      using s e'(1) unfolding simple_ues_def by blast
    have "u_u (ues ! e') = u_u (ues ! e) \<and> u_v (ues ! e') = u_v (ues ! e)"
      using e(2) e'(2) b(1) b' by auto
    moreover have "\<And>i j. i < length ues \<Longrightarrow> j < length ues \<Longrightarrow>
        u_u (ues ! i) = u_u (ues ! j) \<and> u_v (ues ! i) = u_v (ues ! j) \<Longrightarrow> i = j"
      using s unfolding simple_ues_def by blast
    ultimately show ?thesis using e(1) e'(1) by blast
  qed
  show "w < N \<and> (x, e) \<in> set (buildUndAdj N ues ! w) \<and>
        (\<forall>e'. (w, e') \<in> set (buildUndAdj N ues ! x) \<longrightarrow> e' = e)"
    using w sym uniq by blast
qed

subsection \<open>Connected components\<close>

text \<open>The nodes joined by one undirected edge whose index is not in \<open>X\<close>, the relation
  "joined by a path of such edges" on the nodes \<open>0..<N\<close>, and the number of its classes:
  the number of connected components of the undirected graph without the edges
  \<open>X\<close>.\<close>

lemma uadj_sym: "sym (uadj ues X)"
  unfolding sym_def uadj_def by blast

lemma joined_equiv: "equiv {..<N} (joined N ues X)"
proof (rule equivI)
  show "joined N ues X \<subseteq> {..<N} \<times> {..<N}" by (auto simp: joined_def)
  show "refl_on {..<N} (joined N ues X)" by (auto simp: refl_on_def joined_def)
  show "sym (joined N ues X)"
    using sym_rtrancl[OF uadj_sym[of ues X]] unfolding sym_def joined_def by blast
  show "trans (joined N ues X)"
    unfolding trans_def joined_def by (blast intro: rtrancl_trans)
qed

lemma quotient_card_less:
  assumes fin: "finite A" and e: "equiv A R" and e': "equiv A R'" and sub: "R' \<subseteq> R"
    and ab: "(a, b) \<in> R" and nab: "(a, b) \<notin> R'"
  shows "card (A // R) < card (A // R')"
proof -
  have aA: "a \<in> A" and bA: "b \<in> A" using ab e unfolding equiv_def by blast+
  have RA: "R \<subseteq> A \<times> A" and R'A: "R' \<subseteq> A \<times> A" using e e' unfolding equiv_def by blast+
  have fq': "finite (A // R')" by (rule finite_quotient[OF fin R'A])
  define f where "f = (\<lambda>c. R `` c)"
  have fx: "f (R' `` {x}) = R `` {x}" if x: "x \<in> A" for x
  proof
    show "f (R' `` {x}) \<subseteq> R `` {x}"
    proof
      fix y assume "y \<in> f (R' `` {x})"
      then obtain z where z: "(x, z) \<in> R'" "(z, y) \<in> R" unfolding f_def by blast
      have "(x, z) \<in> R" using z(1) sub by blast
      then have "(x, y) \<in> R" using z(2) e unfolding equiv_def trans_def by blast
      then show "y \<in> R `` {x}" by blast
    qed
    show "R `` {x} \<subseteq> f (R' `` {x})"
    proof
      fix y assume "y \<in> R `` {x}"
      then have "(x, y) \<in> R" by blast
      moreover have "x \<in> R' `` {x}" using x e' unfolding equiv_def refl_on_def by blast
      ultimately show "y \<in> f (R' `` {x})" unfolding f_def by blast
    qed
  qed
  have img: "f ` (A // R') = A // R"
  proof
    show "f ` (A // R') \<subseteq> A // R"
    proof
      fix c assume "c \<in> f ` (A // R')"
      then obtain x where "x \<in> A" "c = f (R' `` {x})" unfolding quotient_def by blast
      then show "c \<in> A // R" using fx[of x] by (simp add: quotientI)
    qed
    show "A // R \<subseteq> f ` (A // R')"
    proof
      fix c assume "c \<in> A // R"
      then obtain x where x: "x \<in> A" "c = R `` {x}" unfolding quotient_def by blast
      have "R' `` {x} \<in> A // R'" using x(1) by (rule quotientI)
      then show "c \<in> f ` (A // R')" using fx[OF x(1)] x(2) by (metis imageI)
    qed
  qed
  have ne: "R' `` {a} \<noteq> R' `` {b}"
    using nab eq_equiv_class[OF _ e' bA, of a] by blast
  have same: "f (R' `` {a}) = f (R' `` {b})"
    using fx[OF aA] fx[OF bA] equiv_class_eq[OF e ab] by simp
  have "\<not> inj_on f (A // R')"
    using ne same quotientI[OF aA, of R'] quotientI[OF bA, of R'] unfolding inj_on_def by blast
  then have "card (f ` (A // R')) \<noteq> card (A // R')"
    using eq_card_imp_inj_on[OF fq'] by blast
  moreover have "card (f ` (A // R')) \<le> card (A // R')" by (rule card_image_le[OF fq'])
  ultimately show ?thesis unfolding img by simp
qed

lemma uadj_mono: "uadj ues X \<subseteq> uadj ues {}"
  unfolding uadj_def by blast

lemma joined_mono: "joined N ues X \<subseteq> joined N ues {}"
  unfolding joined_def using rtrancl_mono[OF uadj_mono[of ues X]] by blast

lemma uadj_eq:
  assumes "length xs = length ys"
    and "\<And>i. i < length ys \<Longrightarrow> u_u (xs ! i) = u_u (ys ! i) \<and> u_v (xs ! i) = u_v (ys ! i)"
  shows "uadj xs X = uadj ys X"
  unfolding uadj_def using assms by auto

text \<open>An edge with a separating set of nodes is a bridge.\<close>

lemma sep_bridge:
  assumes s: "simple_ues N ues" and i: "i < length ues"
    and sp: "sep N (\<lambda>u. buildUndAdj N ues ! u) i"
  shows "componentCount N ues {} < componentCount N ues {i}"
proof -
  from sp obtain S x w where S: "S \<subseteq> {..<N}" "x \<in> S" "w \<notin> S"
    "(w, i) \<in> set (buildUndAdj N ues ! x)"
    and cl: "\<And>x w e'. x \<in> S \<Longrightarrow> (w, e') \<in> set (buildUndAdj N ues ! x) \<Longrightarrow> e' \<noteq> i \<Longrightarrow> w \<in> S"
    unfolding sep_def by blast
  have xN: "x < N" using S(1,2) by blast
  have ends: "(u_u (ues ! i) = x \<and> u_v (ues ! i) = w) \<or> (u_v (ues ! i) = x \<and> u_u (ues ! i) = w)"
    using undAdj_set[OF s xN, of w i] S(4) by blast
  have wN: "w < N" using ends s i xN unfolding simple_ues_def by auto
  have step: "b \<in> S" if "a \<in> S" "(a, b) \<in> uadj ues {i}" for a b
  proof -
    from that(2) obtain j where j: "j < length ues" "j \<noteq> i"
      "(u_u (ues ! j) = a \<and> u_v (ues ! j) = b) \<or> (u_u (ues ! j) = b \<and> u_v (ues ! j) = a)"
      unfolding uadj_def by blast
    have aN: "a < N" using that(1) S(1) by blast
    have "(b, j) \<in> set (buildUndAdj N ues ! a)"
      using undAdj_set[OF s aN, of b j] j by blast
    then show ?thesis using cl[OF that(1) _ j(2)] by blast
  qed
  have reach: "b \<in> S" if "(a, b) \<in> (uadj ues {i})\<^sup>*" "a \<in> S" for a b
    using that by (induction rule: rtrancl_induct) (auto intro: step)
  have n1: "(x, w) \<notin> joined N ues {i}"
    using reach[of x w] S(2,3) unfolding joined_def by blast
  have "(x, w) \<in> uadj ues {}" using ends i unfolding uadj_def by blast
  then have n0: "(x, w) \<in> joined N ues {}" using xN wN unfolding joined_def by blast
  show ?thesis unfolding componentCount_def
    by (rule quotient_card_less[OF _ joined_equiv joined_equiv joined_mono n0 n1]) simp
qed

lemma built_simple:
  "simple_ues (length (nodes (buildRoadGraph m opt)))
     (bs_undirEdges (pass2 m (rtOf opt) (fst (pass1 m (rtOf opt))) (snd (pass1 m (rtOf opt)))))"
proof -
  let ?bs = "pass2 m (rtOf opt) (fst (pass1 m (rtOf opt))) (snd (pass1 m (rtOf opt)))"
  let ?ns = "nodes (buildRoadGraph m opt)"
  let ?ues = "bs_undirEdges ?bs"
  have inv: "dir_inv m (rtOf opt) ?ns ?bs" "undir_inv ?bs" "link_inv ?bs"
    using built_pass2_inv[of m opt] unfolding pass2_inv_def by blast+
  have u1: "\<And>i. i < length ?ues \<Longrightarrow> u_id (?ues ! i) = i \<and> u_u (?ues ! i) < u_v (?ues ! i)"
    using inv(2) unfolding undir_inv_def by blast
  have u2: "\<And>lo hi i. bs_undirMap ?bs (lo, hi) = Some i \<longleftrightarrow>
        i < length ?ues \<and> u_u (?ues ! i) = lo \<and> u_v (?ues ! i) = hi"
    using inv(2) unfolding undir_inv_def by blast
  have b: "u_v (?ues ! i) < length ?ns" if i: "i < length ?ues" for i
  proof -
    from inv(3) i obtain e where e: "e \<in> set (bs_dirEdges ?bs)"
      "u_v (?ues ! i) = max (e_from e) (e_to e)"
      unfolding link_inv_def by blast
    have "dedge_ok m (rtOf opt) ?ns e" using inv(1) e(1) unfolding dir_inv_def by blast
    then have "e_from e < length ?ns" "e_to e < length ?ns" unfolding dedge_ok_def by blast+
    then show ?thesis using e(2) by simp
  qed
  have d: "i = j" if "i < length ?ues" "j < length ?ues"
      "u_u (?ues ! i) = u_u (?ues ! j) \<and> u_v (?ues ! i) = u_v (?ues ! j)" for i j
  proof -
    have "bs_undirMap ?bs (u_u (?ues ! j), u_v (?ues ! j)) = Some i"
      using u2[of "u_u (?ues ! j)" "u_v (?ues ! j)" i] that by simp
    moreover have "bs_undirMap ?bs (u_u (?ues ! j), u_v (?ues ! j)) = Some j"
      using u2[of "u_u (?ues ! j)" "u_v (?ues ! j)" j] that by simp
    ultimately show ?thesis by simp
  qed
  show ?thesis unfolding simple_ues_def using u1 b d by blast
qed

text \<open>Claim C2 (bridge correctness). In every graph built by \<open>buildRoadGraph\<close>, an
  undirected edge with \<open>isBridge = true\<close> is a bridge: the undirected graph on the nodes
  of the graph has strictly more connected components without that edge than with it.
  (Above the threshold of 1600 nodes no edge is flagged, so the node count needs no
  hypothesis.)\<close>

theorem flagged_edge_is_bridge:
  assumes i: "i < length (undirEdges (buildRoadGraph m opt))"
    and fl: "u_isBridge (undirEdges (buildRoadGraph m opt) ! i)"
  shows "componentCount (length (nodes (buildRoadGraph m opt))) (undirEdges (buildRoadGraph m opt)) {}
         < componentCount (length (nodes (buildRoadGraph m opt)))
             (undirEdges (buildRoadGraph m opt)) {i}"
proof -
  let ?G = "buildRoadGraph m opt"
  let ?bs = "pass2 m (rtOf opt) (fst (pass1 m (rtOf opt))) (snd (pass1 m (rtOf opt)))"
  let ?N = "length (nodes ?G)"
  let ?ues = "bs_undirEdges ?bs"
  have N: "?N = length (snd (pass1 m (rtOf opt)))" by (simp add: buildRoadGraph_fields rtOf_def)
  have ue: "undirEdges ?G = map setBridgeScore (bridgePass ?N ?ues)"
    unfolding N buildRoadGraph_fields rtOf_def ..
  have len: "length (bridgePass ?N ?ues) = length ?ues" by (rule bridgePass_length)
  have i': "i < length ?ues" using i unfolding ue by (simp add: len)
  have fl': "u_isBridge (bridgePass ?N ?ues ! i)"
    using fl i' len unfolding ue by (simp add: setBridgeScore_def)
  have s: "simple_ues ?N ?ues" by (rule built_simple)
  have nofl: "\<not> u_isBridge (?ues ! i)"
    using built_pass2_inv[of m opt] i' unfolding pass2_inv_def undir_inv_def by blast
  have small: "?N \<le> BRIDGE_SAFE_N"
  proof (rule ccontr)
    assume "\<not> ?N \<le> BRIDGE_SAFE_N"
    then have "bridgePass ?N ?ues = ?ues" by (simp add: bridgePass_def)
    then show False using fl' nofl by simp
  qed
  then have bp: "bridgePass ?N ?ues = computeBridges ?N ?ues (\<lambda>u. buildUndAdj ?N ?ues ! u)"
    by (simp add: bridgePass_def Let_def)
  have "u_isBridge (?ues ! i) \<or> sep ?N (\<lambda>u. buildUndAdj ?N ?ues ! u) i"
    by (rule computeBridges_sound[OF undAdj_ugraph[OF s] i']) (use fl' bp in simp)
  then have sp: "sep ?N (\<lambda>u. buildUndAdj ?N ?ues ! u) i" using nofl by blast
  have cc: "componentCount ?N ?ues {} < componentCount ?N ?ues {i}"
    by (rule sep_bridge[OF s i' sp])
  have same: "uadj (undirEdges ?G) X = uadj ?ues X" for X
  proof (rule uadj_eq)
    show "length (undirEdges ?G) = length ?ues" unfolding ue by (simp add: len)
    fix j assume j: "j < length ?ues"
    have "u_u (bridgePass ?N ?ues ! j) = u_u (?ues ! j) \<and> u_v (bridgePass ?N ?ues ! j) = u_v (?ues ! j)"
      using unflag_fields(2)[OF unflag_bridgePass, of j ?N ?ues] j len by simp
    then show "u_u (undirEdges ?G ! j) = u_u (?ues ! j) \<and> u_v (undirEdges ?G ! j) = u_v (?ues ! j)"
      unfolding ue using j len by (simp add: setBridgeScore_def)
  qed
  have "componentCount ?N (undirEdges ?G) X = componentCount ?N ?ues X" for X
    unfolding componentCount_def joined_def same ..
  then show ?thesis using cc by simp
qed

lemma strip10_flagged: "u_isBridge (undirEdges (buildRoadGraph strip10 (Some 2)) ! 0)"
proof -
  have n: "length (snd (pass1 strip10 2)) = 2"
    using strip10_nodes unfolding buildRoadGraph_fields option.case by simp
  have u: "[0..<2] = [0, 1]" by (simp add: upt_rec)
  show ?thesis
    unfolding buildRoadGraph_fields option.case strip10_undir_pre n
    by (simp add: bridgePass_def BRIDGE_SAFE_N_def buildUndAdj_def computeBridges_def u dfs_def
        Let_def enter_def setParent_def afterChild_def markBridge_def setBridgeScore_def)
qed

theorem flagged_edge_is_bridge_witness:
  "0 < length (undirEdges (buildRoadGraph strip10 (Some 2))) \<and>
   u_isBridge (undirEdges (buildRoadGraph strip10 (Some 2)) ! 0) \<and>
   componentCount 2 (undirEdges (buildRoadGraph strip10 (Some 2))) {}
     < componentCount 2 (undirEdges (buildRoadGraph strip10 (Some 2))) {0}"
proof -
  have l: "0 < length (undirEdges (buildRoadGraph strip10 (Some 2)))"
    by (simp add: strip10_undir_length)
  have n: "length (nodes (buildRoadGraph strip10 (Some 2))) = 2" by (simp add: strip10_nodes)
  show ?thesis
    using flagged_edge_is_bridge[OF l strip10_flagged] l strip10_flagged unfolding n by simp
qed

subsection \<open>Waypoints with their lane offset\<close>

lemma toInt32_wrap32: "toInt32 b = wrap32 b"
proof -
  have "sint (word_of_int b :: 32 word) = signed_take_bit (LENGTH(32) - 1) b"
    by (rule sint_sbintrunc')
  also have "\<dots> = take_bit (Suc 31) (b + 2 ^ 31) - 2 ^ 31"
    by (simp add: signed_take_bit_eq_take_bit_shift)
  also have "\<dots> = wrap32 b" by (simp add: take_bit_eq_mod wrap32_def)
  finally show ?thesis by (simp add: toInt32_def)
qed

lemma wrap32_id: "- 2147483648 \<le> b \<Longrightarrow> b < 2147483648 \<Longrightarrow> wrap32 b = b"
  by (simp add: wrap32_def)

lemma edgeBetween_findAdj: "findAdj g a b = edgeBetween g a b"
  by (simp add: findAdj_def edgeBetween_def adjOf_def)

lemma fold_append_filter:
  "fold (\<lambda>t acc. if P t then acc @ [f t] else acc) xs acc = acc @ map f (filter P xs)"
  by (induction xs arbitrary: acc) simp_all

lemma fold_append_concat:
  assumes "\<And>i acc. F i acc = acc @ G i"
  shows "fold F xs acc = acc @ concat (map G xs)"
  by (induction xs arbitrary: acc) (simp_all add: assms)

lemma kept_fold:
  "fold (\<lambda>t acc. if A \<and> t = 0 then acc
                 else if B \<and> t = 0 then acc
                 else if \<not> (t = length tiles - 1) \<and> t > 0 \<and> t mod 2 = 1 then acc
                 else acc @ [f (tiles ! t)]) [0..<length tiles] out =
   out @ map f (keptTiles (A \<or> B) tiles)"
proof -
  let ?K = "\<lambda>t. (t = 0 \<and> \<not> (A \<or> B)) \<or> (0 < t \<and> (t = length tiles - 1 \<or> even t))"
  have "(\<lambda>t acc. if A \<and> t = 0 then acc
                 else if B \<and> t = 0 then acc
                 else if \<not> (t = length tiles - 1) \<and> t > 0 \<and> t mod 2 = 1 then acc
                 else acc @ [f (tiles ! t)]) =
        (\<lambda>t acc. if ?K t then acc @ [(\<lambda>t. f (tiles ! t)) t] else acc)"
    by (intro ext) (auto simp: odd_iff_mod_2_eq_one)
  then show ?thesis
    by (simp only: fold_append_filter keptTiles_def map_map o_def)
qed

lemma edgeStep_eq:
  "edgeStep m g nodePath dropFirst lw lb i out =
     out @ (case edgeBetween g (nodePath ! i) (nodePath ! (i + 1)) of
              None \<Rightarrow> []
            | Some ad \<Rightarrow>
                if length (dirEdges g) \<le> a_edge ad then []
                else map (lanePoint m (dirEdges g ! a_edge ad) lb lw)
                       (keptTiles (dropFirst \<or> 0 < i) (e_tiles (dirEdges g ! a_edge ad))))"
proof (cases "edgeBetween g (nodePath ! i) (nodePath ! (i + 1))")
  case None
  then show ?thesis by (simp add: edgeStep_def edgeBetween_findAdj)
next
  case (Some ad)
  show ?thesis
  proof (cases "length (dirEdges g) \<le> a_edge ad")
    case True
    then show ?thesis using Some by (simp add: edgeStep_def edgeBetween_findAdj)
  next
    case False
    let ?e = "dirEdges g ! a_edge ad"
    have k: "(dropFirst \<and> i = 0 \<or> 0 < i) = (dropFirst \<or> 0 < i)" by auto
    have "edgeStep m g nodePath dropFirst lw lb i out =
            fold (\<lambda>t acc. if (dropFirst \<and> i = 0) \<and> t = 0 then acc
                 else if 0 < i \<and> t = 0 then acc
                 else if \<not> (t = length (e_tiles ?e) - 1) \<and> t > 0 \<and> t mod 2 = 1 then acc
                 else acc @ [lanePoint m ?e lb lw (e_tiles ?e ! t)]) [0..<length (e_tiles ?e)] out"
      unfolding edgeStep_def Let_def wpAt_lanePoint
      using Some False by (simp add: edgeBetween_findAdj conj_assoc)
    also have "\<dots> = out @ map (lanePoint m ?e lb lw) (keptTiles (dropFirst \<and> i = 0 \<or> 0 < i) (e_tiles ?e))"
      by (rule kept_fold)
    finally show ?thesis using Some False by (simp add: k)
  qed
qed

lemma nodePathToWaypoints_eq:
  "nodePathToWaypoints m g nodePath dropFirst opts =
     (let lw = (case opt_laneWidth opts of Some v \<Rightarrow> v
                | None \<Rightarrow> max 4 ((case tileSize m of Some t \<Rightarrow> t | None \<Rightarrow> 64) * 0.18));
          lb = (case opt_laneBias opts of Some b \<Rightarrow> wrap32 b | None \<Rightarrow> 0);
          out = concat (map (\<lambda>i. case edgeBetween g (nodePath ! i) (nodePath ! (i + 1)) of
                                   None \<Rightarrow> []
                                 | Some ad \<Rightarrow>
                                     if length (dirEdges g) \<le> a_edge ad then []
                                     else map (lanePoint m (dirEdges g ! a_edge ad) lb lw)
                                            (keptTiles (dropFirst \<or> 0 < i)
                                               (e_tiles (dirEdges g ! a_edge ad))))
                          [0..<length nodePath - 1])
      in if length nodePath < 2 \<or> out = [] then None else Some out)"
proof -
  have lw: "laneWidthOf m opts = (case opt_laneWidth opts of Some v \<Rightarrow> v
                | None \<Rightarrow> max 4 ((case tileSize m of Some t \<Rightarrow> t | None \<Rightarrow> 64) * 0.18))"
    unfolding laneWidthOf_def tileSizeOf_def ..
  have lb: "laneBiasOf opts = (case opt_laneBias opts of Some b \<Rightarrow> wrap32 b | None \<Rightarrow> 0)"
    unfolding laneBiasOf_def toInt32_wrap32 ..
  have f: "fold (edgeStep m g nodePath dropFirst lw' lb') xs [] =
        [] @ concat (map (\<lambda>i. case edgeBetween g (nodePath ! i) (nodePath ! (i + 1)) of
                                   None \<Rightarrow> []
                                 | Some ad \<Rightarrow>
                                     if length (dirEdges g) \<le> a_edge ad then []
                                     else map (lanePoint m (dirEdges g ! a_edge ad) lb' lw')
                                            (keptTiles (dropFirst \<or> 0 < i)
                                               (e_tiles (dirEdges g ! a_edge ad)))) xs)" for lw' lb' xs
    by (rule fold_append_concat) (rule edgeStep_eq)
  show ?thesis
    unfolding nodePathToWaypoints_def f lw lb by (simp add: Let_def)
qed

lemma kept_fold0:
  "fold (\<lambda>t acc. if \<not> (t = length tiles - 1) \<and> t > 0 \<and> t mod 2 = 1 then acc
                 else acc @ [f (tiles ! t)]) [0..<length tiles] out =
   out @ map f (keptTiles False tiles)"
proof -
  let ?K = "\<lambda>t. (t = 0 \<and> \<not> False) \<or> (0 < t \<and> (t = length tiles - 1 \<or> even t))"
  have "(\<lambda>t acc. if \<not> (t = length tiles - 1) \<and> t > 0 \<and> t mod 2 = 1 then acc
                 else acc @ [f (tiles ! t)]) =
        (\<lambda>t acc. if ?K t then acc @ [(\<lambda>t. f (tiles ! t)) t] else acc)"
    by (intro ext) (auto simp: odd_iff_mod_2_eq_one)
  then show ?thesis
    by (simp only: fold_append_filter keptTiles_def map_map o_def)
qed

lemma buildEdgeWaypoints_eq:
  "buildEdgeWaypoints m g edgeId laneBias =
     (let lw = max 4 ((case tileSize m of Some t \<Rightarrow> t | None \<Rightarrow> 64) * 0.18);
          out = (if length (dirEdges g) \<le> edgeId then []
                 else map (lanePoint m (dirEdges g ! edgeId) laneBias lw)
                        (keptTiles False (e_tiles (dirEdges g ! edgeId))))
      in if out = [] then None else Some out)"
proof (cases "length (dirEdges g) \<le> edgeId")
  case True
  then show ?thesis by (simp add: buildEdgeWaypoints_def)
next
  case False
  have ts: "tileSizeOf m = (case tileSize m of Some t \<Rightarrow> t | None \<Rightarrow> 64)"
    by (simp add: tileSizeOf_def)
  have e0: "keptTiles False [] = []" by (simp add: keptTiles_def)
  show ?thesis
    unfolding buildEdgeWaypoints_def Let_def wpAt_lanePoint ts kept_fold0
    using False e0 by (cases "e_tiles (dirEdges g ! edgeId) = []") simp_all
qed

lemma upt10: "[0..<10] = [0, 1, 2, 3, 4, 5, 6, 7, 8, 9]"
  by (simp add: upt_rec)

lemma line9_kept:
  "keptTiles True (line DirE (0, 0) 9) = [(2, 0), (4, 0), (6, 0), (8, 0), (9, 0)]"
  "keptTiles False (line DirE (0, 0) 9) = [(0, 0), (2, 0), (4, 0), (6, 0), (8, 0), (9, 0)]"
  by (simp_all add: keptTiles_def line_length upt10 line_nth)

lemma strip10_center: "tileToWorldCenter strip10 x y = ((real_of_int x + 0.5) * 64, (real_of_int y + 0.5) * 64)"
  by (simp add: tileToWorldCenter_def tileSizeOf_def strip10_def)

lemma strip10_edgeBetween:
  "edgeBetween (buildRoadGraph strip10 (Some 2)) 0 1 =
     Some \<lparr>a_to = 1, a_edge = 0, a_cost = 9, a_dirX = 1, a_dirY = 0, a_lanes = 2, a_undirectedId = 0\<rparr>"
  by (simp add: edgeBetween_def strip10_adj)

text \<open>The strip with three lanes.\<close>

lemma lanes3_sel:
  "width strip10_lanes3 = 10" "height strip10_lanes3 = 1" "tileAt strip10_lanes3 x y = 2"
  "oneWayAt strip10_lanes3 = None" "tileSize strip10_lanes3 = None"
  by (simp_all add: strip10_lanes3_def)

lemma lanes3_corridor: "corridor strip10_lanes3 2 DirE 0 0 9"
  by (rule strip_is_corridor; simp add: lanes3_sel)

lemma lanes3_ok:
  "segmentOk strip10_lanes3 DirE (line DirE (0, 0) 9)"
  "segmentOk strip10_lanes3 (opp DirE) (line (opp DirE) (0 + int 9 * dx DirE, 0 + int 9 * dy DirE) 9)"
  unfolding segmentOk_line by (simp_all add: tileAllowsDir_def oneWayOf_def lanes3_sel)

lemma lanes3_lanes: "segmentLaneCount strip10_lanes3 (line d p k) = 3"
proof -
  have a: "fold (\<lambda>t acc. let lc = toInt32 (laneCountOf strip10_lanes3 (fst t) (snd t))
                       in if lc > acc then lc else acc) ts 3 = 3" for ts
    by (induction ts) (simp_all add: laneCountOf_def strip10_lanes3_def)
  obtain t ts where "line d p k = t # ts" using line_hd_last(3)[of d p k] by (cases "line d p k") auto
  then show ?thesis using a[of ts] by (simp add: segmentLaneCount_def laneCountOf_def strip10_lanes3_def)
qed

lemma lanes3_dirEdges:
  "dirEdges (buildRoadGraph strip10_lanes3 (Some 2)) =
     [\<lparr>e_id = 0, e_from = 0, e_to = 1, e_tiles = line DirE (0, 0) 9, e_cost = 9,
       e_dirX = 1, e_dirY = 0, e_lanes = 3, e_undirectedId = 0\<rparr>,
      \<lparr>e_id = 1, e_from = 1, e_to = 0, e_tiles = line DirW (9, 0) 9, e_cost = 9,
       e_dirX = -1, e_dirY = 0, e_lanes = 3, e_undirectedId = 0\<rparr>]"
  using corridor_dirEdges_both[OF lanes3_corridor lanes3_ok]
  by (simp add: opp_def lanes3_lanes)

lemma lanes3_edgeBetween:
  "edgeBetween (buildRoadGraph strip10_lanes3 (Some 2)) 0 1 =
     Some \<lparr>a_to = 1, a_edge = 0, a_cost = 9, a_dirX = 1, a_dirY = 0, a_lanes = 3, a_undirectedId = 0\<rparr>"
  using corridor_adj_both[OF lanes3_corridor lanes3_ok]
  by (simp add: edgeBetween_def opp_def lanes3_lanes)

lemma lanes3_center:
  "tileToWorldCenter strip10_lanes3 x y = ((real_of_int x + 0.5) * 64, (real_of_int y + 0.5) * 64)"
  by (simp add: tileToWorldCenter_def tileSizeOf_def strip10_lanes3_def)

lemma wrap32_big: "wrap32 4294967297 = 1"
  by (simp add: wrap32_def)

text \<open>Claim C9 as stated fails for a lane bias outside the signed 32-bit range:
  \<open>nodePathToWaypoints\<close> takes \<open>opts.laneBias | 0\<close>. On the 10x1 strip with three lanes and
  \<open>laneBias = 4294967297\<close>, the lane index of the claim is \<open>4294967297 mod 3 = 2\<close>, which
  puts the waypoint of tile (2, 0) at (160, 43.52); the waypoints returned lie on the
  centre line (lane index 1), the first of them at (160, 32).\<close>

theorem lane_bias_wraps_at_32_bits:
  "nodePathToWaypoints strip10_lanes3 (buildRoadGraph strip10_lanes3 (Some 2)) [0, 1] True optsWrap =
     Some [(160, 32), (288, 32), (416, 32), (544, 32), (608, 32)] \<and>
   e_lanes (dirEdges (buildRoadGraph strip10_lanes3 (Some 2)) ! 0) = 3 \<and>
   (4294967297 :: int) mod 3 = 2 \<and>
   lanePoint strip10_lanes3 (dirEdges (buildRoadGraph strip10_lanes3 (Some 2)) ! 0) 4294967297
     (max 4 (64 * 0.18)) (2, 0) = (160, 43.52)"
proof -
  have a: "nodePathToWaypoints strip10_lanes3 (buildRoadGraph strip10_lanes3 (Some 2)) [0, 1] True optsWrap =
     Some [(160, 32), (288, 32), (416, 32), (544, 32), (608, 32)]"
    unfolding nodePathToWaypoints_eq
    by (simp add: optsWrap_def lanes3_edgeBetween lanes3_dirEdges line9_kept wrap32_big lanes3_sel)
       (simp add: lanePoint_def lanes3_center Let_def)
  have b: "lanePoint strip10_lanes3 (dirEdges (buildRoadGraph strip10_lanes3 (Some 2)) ! 0) 4294967297
     (max 4 (64 * 0.18)) (2, 0) = (160, 43.52)"
    by (simp add: lanes3_dirEdges) (simp add: lanePoint_def lanes3_center Let_def)
  show ?thesis using a b by (simp add: lanes3_dirEdges)
qed

text \<open>Claim C9 (lane offset of waypoints), amended by the 32-bit reduction of the lane
  bias. The waypoints that \<open>nodePathToWaypoints\<close> returns are exactly, edge by edge of the
  path and in order, the points \<open>lanePoint\<close> of the retained tiles of the edge, and those
  that \<open>buildEdgeWaypoints\<close> returns are the points \<open>lanePoint\<close> of the retained tiles of
  its edge: the world centre of the tile moved along the perpendicular \<open>(-dirY, dirX)\<close>
  of the edge's direction by \<open>(laneIndex - (lanes - 1) / 2) * laneWidth\<close>, with \<open>lanes\<close>
  the lane count of the edge clamped to 1..4 and \<open>laneIndex\<close> the non-negative remainder
  of the lane bias modulo \<open>lanes\<close>. The lane width is \<open>opts.laneWidth\<close> or, by default,
  \<open>max 4 (0.18 * tileSize)\<close>; the lane bias of \<open>nodePathToWaypoints\<close> is \<open>opts.laneBias\<close>
  reduced to a signed 32-bit integer (\<open>wrap32\<close>), which is \<open>opts.laneBias\<close> itself between
  \<open>-2^31\<close> and \<open>2^31 - 1\<close>. The retained tiles (\<open>keptTiles\<close>) are the first tile unless it is
  skipped at a seam, the last tile, and the tiles of even index between them.\<close>

theorem lane_offset_waypoints:
  "nodePathToWaypoints m g nodePath dropFirst opts =
     (let lw = (case opt_laneWidth opts of Some v \<Rightarrow> v
                | None \<Rightarrow> max 4 ((case tileSize m of Some t \<Rightarrow> t | None \<Rightarrow> 64) * 0.18));
          lb = (case opt_laneBias opts of Some b \<Rightarrow> wrap32 b | None \<Rightarrow> 0);
          out = concat (map (\<lambda>i. case edgeBetween g (nodePath ! i) (nodePath ! (i + 1)) of
                                   None \<Rightarrow> []
                                 | Some ad \<Rightarrow>
                                     if length (dirEdges g) \<le> a_edge ad then []
                                     else map (lanePoint m (dirEdges g ! a_edge ad) lb lw)
                                            (keptTiles (dropFirst \<or> 0 < i)
                                               (e_tiles (dirEdges g ! a_edge ad))))
                          [0..<length nodePath - 1])
      in if length nodePath < 2 \<or> out = [] then None else Some out) \<and>
   buildEdgeWaypoints m g edgeId laneBias =
     (let lw = max 4 ((case tileSize m of Some t \<Rightarrow> t | None \<Rightarrow> 64) * 0.18);
          out = (if length (dirEdges g) \<le> edgeId then []
                 else map (lanePoint m (dirEdges g ! edgeId) laneBias lw)
                        (keptTiles False (e_tiles (dirEdges g ! edgeId))))
      in if out = [] then None else Some out) \<and>
   (- 2147483648 \<le> b \<and> b < 2147483648 \<longrightarrow> wrap32 b = b)"
proof (intro conjI impI)
  show "nodePathToWaypoints m g nodePath dropFirst opts =
     (let lw = (case opt_laneWidth opts of Some v \<Rightarrow> v
                | None \<Rightarrow> max 4 ((case tileSize m of Some t \<Rightarrow> t | None \<Rightarrow> 64) * 0.18));
          lb = (case opt_laneBias opts of Some b \<Rightarrow> wrap32 b | None \<Rightarrow> 0);
          out = concat (map (\<lambda>i. case edgeBetween g (nodePath ! i) (nodePath ! (i + 1)) of
                                   None \<Rightarrow> []
                                 | Some ad \<Rightarrow>
                                     if length (dirEdges g) \<le> a_edge ad then []
                                     else map (lanePoint m (dirEdges g ! a_edge ad) lb lw)
                                            (keptTiles (dropFirst \<or> 0 < i)
                                               (e_tiles (dirEdges g ! a_edge ad))))
                          [0..<length nodePath - 1])
      in if length nodePath < 2 \<or> out = [] then None else Some out)"
    by (rule nodePathToWaypoints_eq)
  show "buildEdgeWaypoints m g edgeId laneBias =
     (let lw = max 4 ((case tileSize m of Some t \<Rightarrow> t | None \<Rightarrow> 64) * 0.18);
          out = (if length (dirEdges g) \<le> edgeId then []
                 else map (lanePoint m (dirEdges g ! edgeId) laneBias lw)
                        (keptTiles False (e_tiles (dirEdges g ! edgeId))))
      in if out = [] then None else Some out)"
    by (rule buildEdgeWaypoints_eq)
  assume "- 2147483648 \<le> b \<and> b < 2147483648"
  then show "wrap32 b = b" by (simp add: wrap32_id)
qed

theorem lane_offset_waypoints_witness:
  "nodePathToWaypoints strip10 (buildRoadGraph strip10 (Some 2)) [0, 1] True opts3 =
     Some [(160, 37.76), (288, 37.76), (416, 37.76), (544, 37.76), (608, 37.76)] \<and>
   buildEdgeWaypoints strip10 (buildRoadGraph strip10 (Some 2)) 0 3 =
     Some [(32, 37.76), (160, 37.76), (288, 37.76), (416, 37.76), (544, 37.76), (608, 37.76)] \<and>
   wrap32 3 = 3"
proof -
  have ts: "tileSize strip10 = None" by (simp add: strip10_def)
  have w: "wrap32 3 = 3" by (simp add: wrap32_def)
  have lp: "lanePoint strip10 (dirEdges (buildRoadGraph strip10 (Some 2)) ! 0) 3 (288 / 25) (x, 0)
              = ((real_of_int x + 0.5) * 64, 944 / 25)" for x
    by (simp add: strip10_dirEdges) (simp add: lanePoint_def strip10_center Let_def)
  from lane_offset_waypoints[of strip10 "buildRoadGraph strip10 (Some 2)" "[0, 1]" True opts3 0 3 3]
  show ?thesis
    by (simp add: opts3_def strip10_edgeBetween line9_kept w ts lp Let_def
        strip10_dirEdges[THEN arg_cong, of length] strip10_dirEdges[THEN arg_cong, of "\<lambda>l. e_tiles (l ! 0)"])
qed

subsection \<open>A T-shaped junction\<close>














subsection \<open>C5: the intercept node, by route costs\<close>





subsection \<open>The pursuit at the T junction\<close>






subsection \<open>Best-first search with a consistent heuristic\<close>





subsection \<open>The binary heap\<close>








subsection \<open>A* on the node graph: the invariant\<close>








subsection \<open>The path that is returned\<close>











subsection \<open>The cost table\<close>





subsection \<open>Graphs built from a map\<close>










subsection \<open>The tile grid\<close>



lemma pick_fold:
  "\<exists>r. fold (\<lambda>kn best. case best of None \<Rightarrow> Some kn
                 | Some b \<Rightarrow> if gn_f (snd kn) < gn_f (snd b) then Some kn else best) xs (Some b) = Some r \<and>
       (r = b \<or> r \<in> set xs) \<and> gn_f (snd r) \<le> gn_f (snd b) \<and>
       (\<forall>y \<in> set xs. gn_f (snd r) \<le> gn_f (snd y))"
proof (induction xs arbitrary: b)
  case Nil
  show ?case by simp
next
  case (Cons x xs)
  show ?case
  proof (cases "gn_f (snd x) < gn_f (snd b)")
    case True
    from Cons.IH[of x] obtain r where r: "fold (\<lambda>kn best. case best of None \<Rightarrow> Some kn
                 | Some b \<Rightarrow> if gn_f (snd kn) < gn_f (snd b) then Some kn else best) xs (Some x) = Some r"
      "r = x \<or> r \<in> set xs" "gn_f (snd r) \<le> gn_f (snd x)" "\<forall>y \<in> set xs. gn_f (snd r) \<le> gn_f (snd y)"
      by blast
    show ?thesis
      by (rule exI[of _ r]) (use True r in auto)
  next
    case False
    from Cons.IH[of b] obtain r where r: "fold (\<lambda>kn best. case best of None \<Rightarrow> Some kn
                 | Some b \<Rightarrow> if gn_f (snd kn) < gn_f (snd b) then Some kn else best) xs (Some b) = Some r"
      "r = b \<or> r \<in> set xs" "gn_f (snd r) \<le> gn_f (snd b)" "\<forall>y \<in> set xs. gn_f (snd r) \<le> gn_f (snd y)"
      by blast
    show ?thesis
      by (rule exI[of _ r]) (use False r in auto)
  qed
qed

lemma pickBest_None: "pickBest opn = None \<Longrightarrow> opn = []"
proof (cases opn)
  case Nil
  then show ?thesis by simp
next
  case (Cons x xs)
  assume "pickBest opn = None"
  moreover from pick_fold[of xs x] have "\<exists>r. pickBest opn = Some r"
    unfolding pickBest_def Cons by auto
  ultimately show ?thesis by simp
qed


lemma chain_ne [simp]: "chain n \<noteq> []"
  by (cases n) simp















subsection \<open>C1: the cost of the paths that the two searches return\<close>


subsection \<open>A graph that no map yields\<close>




lemma dout_sel [simp]: "a_to (dout t i c) = t" "a_cost (dout t i c) = c"
  by (simp_all add: dout_def)













lemma tout_sel [simp]: "a_to (tout t i a b u) = t" "a_cost (tout t i a b u) = 1"
  by (simp_all add: tout_def)





end
